theory Spec2Isabelle
  imports Complex_Main "HOL-Library.Log_Nat" "HOL-Library.Multiset"
begin

section \<open>Python values the simulation computes with\<close>

text \<open>
  The ride-sharing simulation (directory A1) is written in Python 3.  Exceptions are
  values of the type \<open>error\<close>; a function that can raise returns \<open>error + 'a\<close>,
  with \<open>Inl\<close> for the exception.  A failed \<open>assert\<close> is \<open>AssertionError\<close>,
  reading an attribute of \<open>None\<close> is \<open>AttributeError\<close>, \<open>list.remove\<close> of an
  absent item is \<open>ValueError\<close>.
\<close>

datatype error = AssertionError | AttributeError | OverflowError | ValueError | ZeroDivisionError

subsection \<open>Floats\<close>

text \<open>
  \<open>manhattan_distance\<close> and \<open>Driver.get_travel_time\<close> leave the integers: the first
  through \<open>** 0.5\<close>, the second through \<open>/\<close> and \<open>round\<close>.  A Python float is an
  IEEE-754 binary64 number.  Only finite values occur in this program, and they are
  modelled by the rational number they denote: a significand of 53 bits, exponents down
  to the subnormal spacing \<open>2 powi - 1074\<close>, round to nearest with ties to the even
  significand.  Magnitudes from \<open>2 ^ 1024\<close> on are the overflow range.
\<close>

type_synonym float = rat

text \<open>For \<open>0 < q\<close>, the integer \<open>k\<close> with \<open>2 powi k \<le> q < 2 powi (k + 1)\<close>.\<close>

definition floor_log2 :: "rat \<Rightarrow> int" where
  "floor_log2 q = (case quotient_of q of (a, b) \<Rightarrow>
     let t = bitlen a - bitlen b in if 2 powi t \<le> q then t else t - 1)"

definition round_half_even :: "rat \<Rightarrow> int" where
  "round_half_even q = (let f = \<lfloor>q\<rfloor>; r = q - of_int f in
     if r < 1 / 2 then f else if 1 / 2 < r then f + 1 else if even f then f else f + 1)"

definition nearest_double :: "rat \<Rightarrow> float" where
  "nearest_double q = (if q = 0 then 0 else
     let e = max (floor_log2 \<bar>q\<bar> - 52) (- 1074) in
     of_int (round_half_even (q / 2 powi e)) * 2 powi e)"

text \<open>Integer square root, rounded down.\<close>

fun isqrt :: "nat \<Rightarrow> nat" where
  "isqrt n = (if n < 2 then n else
     let r = 2 * isqrt (n div 4) in if (r + 1) * (r + 1) \<le> n then r + 1 else r)"

declare isqrt.simps [simp del]

text \<open>
  Converting an \<open>int\<close> to a float rounds it, and raises \<open>OverflowError\<close> (``int too
  large to convert to float'') when the rounded value is out of range.
\<close>

definition int_to_float :: "int \<Rightarrow> error + float" where
  "int_to_float n = (let x = nearest_double (of_int n) in
     if 2 ^ 1024 \<le> \<bar>x\<bar> then Inl OverflowError else Inr x)"

text \<open>
  \<open>x ** 0.5\<close> for a float \<open>x \<ge> 0\<close>: the square root of \<open>x\<close>, rounded to the nearest
  double.  The significand \<open>m\<close> of the root is the integer square root of \<open>x\<close> scaled
  by \<open>4 powi - e\<close>; whether to round up is decided by comparing the scaled \<open>x\<close> with
  \<open>(m + 1/2)\<^sup>2\<close>.

  CPython computes \<open>x ** 0.5\<close> with the C library's \<open>pow\<close>, which is not correctly
  rounded: on a float that is not the square of a float its result can differ from this
  one by a unit in the last place (for \<open>29904969091572199 ** 2\<close> it does).  Where
  \<open>x\<close> is the square of an integer below \<open>2 ^ 53\<close> the root is a float, and every
  \<open>pow\<close> with an error under one unit in the last place returns it; nothing below
  uses \<open>float_pow_half\<close> on any other argument.
\<close>

definition float_pow_half :: "float \<Rightarrow> float" where
  "float_pow_half x = (if x \<le> 0 then 0 else
     let e = floor_log2 x div 2 - 52;
         t = x / 2 powi (2 * e);
         m = int (isqrt (nat \<lfloor>t\<rfloor>));
         c = (of_int m + 1 / 2) ^ 2
     in of_int (if t < c then m else if c < t then m + 1 else if even m then m else m + 1)
        * 2 powi e)"

text \<open>
  The sum of two floats.  Its operands in this program are square roots of finite
  floats, so the sum is far below the overflow range.
\<close>

definition float_add :: "float \<Rightarrow> float \<Rightarrow> float" where
  "float_add x y = nearest_double (x + y)"

text \<open>\<open>int(x)\<close> of a float truncates towards zero.\<close>

definition float_to_int :: "float \<Rightarrow> int" where
  "float_to_int x = (if 0 \<le> x then \<lfloor>x\<rfloor> else \<lceil>x\<rceil>)"

text \<open>
  \<open>a / b\<close> on two \<open>int\<close>s is true division: the quotient rounded to the nearest
  double, \<open>ZeroDivisionError\<close> for \<open>b = 0\<close>, \<open>OverflowError\<close> when the quotient is
  out of the range of a float.
\<close>

definition int_true_div :: "int \<Rightarrow> int \<Rightarrow> error + float" where
  "int_true_div a b = (if b = 0 then Inl ZeroDivisionError else
     let x = nearest_double (of_int a / of_int b) in
     if 2 ^ 1024 \<le> \<bar>x\<bar> then Inl OverflowError else Inr x)"

text \<open>\<open>round(x)\<close> of a float, without a number of digits: the nearest \<open>int\<close>, ties to even.\<close>

definition py_round :: "float \<Rightarrow> int" where
  "py_round x = round_half_even x"

section \<open>Locations (location.py)\<close>

record location =
  row :: int
  column :: int

text \<open>
  \<^verbatim>\<open>return int((((destination.row - origin.row) ** 2) ** 0.5) +
             (((destination.column - origin.column) ** 2) ** 0.5))\<close>
  The squares are computed on \<open>int\<close>s; each \<open>** 0.5\<close> converts its square to a float
  first.
\<close>

definition manhattan_distance :: "location \<Rightarrow> location \<Rightarrow> error + int" where
  "manhattan_distance origin destination =
     (case int_to_float ((row destination - row origin) ^ 2) of
        Inl e \<Rightarrow> Inl e
      | Inr r \<Rightarrow>
          (case int_to_float ((column destination - column origin) ^ 2) of
             Inl e \<Rightarrow> Inl e
           | Inr c \<Rightarrow> Inr (float_to_int (float_add (float_pow_half r) (float_pow_half c)))))"

section \<open>Containers (container.py)\<close>

text \<open>
  Both containers keep their items in a Python list \<open>_items\<close>, here a HOL list.  A
  method that changes the container returns the new list.
\<close>

subsection \<open>Queue\<close>

definition Queue_is_empty :: "'a list \<Rightarrow> bool" where
  "Queue_is_empty items = (length items = 0)"

definition Queue_length :: "'a list \<Rightarrow> nat" where
  "Queue_length items = length items"

definition Queue_add :: "'a list \<Rightarrow> 'a \<Rightarrow> 'a list" where
  "Queue_add items item = items @ [item]"

text \<open>\<^verbatim>\<open>assert not self.is_empty(), 'Empty Queue, oh dear!'\<close> and then \<open>self._items[0]\<close>.\<close>

definition Queue_first :: "'a list \<Rightarrow> error + 'a" where
  "Queue_first items = (if \<not> Queue_is_empty items then Inr (hd items) else Inl AssertionError)"

text \<open>\<^verbatim>\<open>assert not self.is_empty(), "Oh dear, empty Queue!"\<close> and then \<open>self._items.pop(0)\<close>.\<close>

definition Queue_remove :: "'a list \<Rightarrow> error + ('a \<times> 'a list)" where
  "Queue_remove items =
     (if \<not> Queue_is_empty items then Inr (hd items, tl items) else Inl AssertionError)"

text \<open>
  \<open>list.remove(x)\<close> deletes the first item \<open>y\<close> with \<open>y == x\<close> and raises
  \<open>ValueError\<close> when there is none.  The equality it uses is the argument \<open>eq\<close>.
\<close>

fun list_remove :: "('a \<Rightarrow> 'a \<Rightarrow> bool) \<Rightarrow> 'a list \<Rightarrow> 'a \<Rightarrow> error + 'a list" where
  "list_remove eq [] x = Inl ValueError"
| "list_remove eq (y # ys) x =
     (if eq y x then Inr ys
      else case list_remove eq ys x of Inl e \<Rightarrow> Inl e | Inr zs \<Rightarrow> Inr (y # zs))"

definition Queue_spcl_remove :: "('a \<Rightarrow> 'a \<Rightarrow> bool) \<Rightarrow> 'a list \<Rightarrow> 'a \<Rightarrow> error + 'a list" where
  "Queue_spcl_remove eq items item = list_remove eq items item"

subsection \<open>PriorityQueue\<close>

text \<open>
  The items are compared with their own \<open><=\<close>, the argument \<open>le\<close>.
  \<^verbatim>\<open>
  i = 0
  while (i < len(self._items)) and (self._items[i] <= item):
      i += 1
  self._items.insert(i, item)\<close>
\<close>

definition PriorityQueue_is_empty :: "'a list \<Rightarrow> bool" where
  "PriorityQueue_is_empty items = (length items = 0)"

function add_loop :: "('a \<Rightarrow> 'a \<Rightarrow> bool) \<Rightarrow> 'a list \<Rightarrow> 'a \<Rightarrow> nat \<Rightarrow> nat" where
  "add_loop le items item i =
     (if i < length items \<and> le (items ! i) item then add_loop le items item (i + 1) else i)"
  by pat_completeness auto
termination
  by (relation "measure (\<lambda>(le, items, item, i). length items - i)") auto

declare add_loop.simps [simp del]

definition PriorityQueue_add :: "('a \<Rightarrow> 'a \<Rightarrow> bool) \<Rightarrow> 'a list \<Rightarrow> 'a \<Rightarrow> 'a list" where
  "PriorityQueue_add le items item =
     (let i = add_loop le items item 0 in take i items @ [item] @ drop i items)"

text \<open>\<^verbatim>\<open>assert not self.is_empty(), "Oh dear, empty PriorityQueue!"\<close> and then \<open>self._items.pop(0)\<close>.\<close>

definition PriorityQueue_remove :: "'a list \<Rightarrow> error + ('a \<times> 'a list)" where
  "PriorityQueue_remove items =
     (if \<not> PriorityQueue_is_empty items then Inr (hd items, tl items) else Inl AssertionError)"

text \<open>
  The class requires items of one type with the rich comparisons.  For the events of
  the simulation \<open><=\<close> compares timestamps: any two events are comparable and the
  comparison is transitive, but different events can compare equal.
\<close>

definition total_preorder :: "('a \<Rightarrow> 'a \<Rightarrow> bool) \<Rightarrow> bool" where
  "total_preorder le \<longleftrightarrow> (\<forall>x y. le x y \<or> le y x) \<and> (\<forall>x y z. le x y \<longrightarrow> le y z \<longrightarrow> le x z)"

text \<open>
  To speak about the order of insertion, an item is paired with the number of the call
  of \<open>add\<close> that inserted it.  The queue never looks at that number: it compares the
  pairs with \<open>le_item\<close>.  \<open>served_before le x y\<close> says that \<open>x\<close> has at least the
  priority of \<open>y\<close> and, where the two compare equal, that \<open>x\<close> was added first.
\<close>

definition le_item :: "('a \<Rightarrow> 'a \<Rightarrow> bool) \<Rightarrow> 'a \<times> nat \<Rightarrow> 'a \<times> nat \<Rightarrow> bool" where
  "le_item le x y \<longleftrightarrow> le (fst x) (fst y)"

definition served_before :: "('a \<Rightarrow> 'a \<Rightarrow> bool) \<Rightarrow> 'a \<times> nat \<Rightarrow> 'a \<times> nat \<Rightarrow> bool" where
  "served_before le x y \<longleftrightarrow> le (fst x) (fst y) \<and> (le (fst y) (fst x) \<longrightarrow> snd x < snd y)"

section \<open>Riders and drivers (rider.py, driver.py)\<close>

datatype rider_status = WAITING | CANCELLED | SATISFIED

record rider =
  rider_identifier :: string
  origin :: location
  rider_destination :: location
  patience :: int
  status :: rider_status

text \<open>\<open>Rider.__eq__\<close> compares all five attributes.\<close>

definition Rider_eq :: "rider \<Rightarrow> rider \<Rightarrow> bool" where
  "Rider_eq self other \<longleftrightarrow>
     rider_identifier self = rider_identifier other \<and> origin self = origin other \<and>
     rider_destination self = rider_destination other \<and> patience self = patience other \<and>
     status self = status other"

text \<open>
  A driver's \<open>destination\<close> is \<open>None\<close> while the driver has nowhere to go.
  \<open>end_drive\<close> and \<open>end_ride\<close> copy it into \<open>location\<close> without a check, so the
  location is an option as well.
\<close>

record driver =
  driver_identifier :: string
  location :: "location option"
  speed :: int
  is_idle :: bool
  destination :: "location option"

text \<open>\<open>Driver.__eq__\<close> compares the identifier, the location, the speed and \<open>is_idle\<close>.\<close>

definition Driver_eq :: "driver \<Rightarrow> driver \<Rightarrow> bool" where
  "Driver_eq self other \<longleftrightarrow>
     driver_identifier self = driver_identifier other \<and> location self = location other \<and>
     speed self = speed other \<and> is_idle self = is_idle other"

text \<open>
  \<^verbatim>\<open>return round((manhattan_distance(self.location, destination) / self.speed))\<close>
\<close>

definition get_travel_time :: "driver \<Rightarrow> location \<Rightarrow> error + int" where
  "get_travel_time self dest =
     (case location self of
        None \<Rightarrow> Inl AttributeError
      | Some l \<Rightarrow>
          (case manhattan_distance l dest of
             Inl e \<Rightarrow> Inl e
           | Inr d \<Rightarrow>
               (case int_true_div d (speed self) of
                  Inl e \<Rightarrow> Inl e
                | Inr x \<Rightarrow> Inr (py_round x))))"

text \<open>The methods that assign attributes return the object after the assignments.\<close>

definition start_drive :: "driver \<Rightarrow> location \<Rightarrow> error + (int \<times> driver)" where
  "start_drive self loc =
     (let self' = self\<lparr>is_idle := False, destination := Some loc\<rparr> in
      case get_travel_time self' loc of Inl e \<Rightarrow> Inl e | Inr t \<Rightarrow> Inr (t, self'))"

definition end_drive :: "driver \<Rightarrow> driver" where
  "end_drive self = self\<lparr>is_idle := True, location := destination self, destination := None\<rparr>"

definition start_ride :: "driver \<Rightarrow> rider \<Rightarrow> error + (int \<times> driver \<times> rider)" where
  "start_ride self rd =
     (let self' = self\<lparr>destination := Some (rider_destination rd)\<rparr>;
          rd' = rd\<lparr>status := SATISFIED\<rparr> in
      case get_travel_time self' (rider_destination rd') of
        Inl e \<Rightarrow> Inl e
      | Inr t \<Rightarrow> Inr (t, self', rd'))"

definition end_ride :: "driver \<Rightarrow> driver" where
  "end_ride self = self\<lparr>is_idle := True, location := destination self, destination := None\<rparr>"

section \<open>The objects of a simulation\<close>

text \<open>
  Riders and drivers are mutable objects that the dispatcher's queues, the events and
  the callers share.  A reference is a number, and the store maps every reference to the
  current attributes of its object.  The queues of the dispatcher hold references.
  The monitor's \<open>_activities\<close> is a dictionary from the category to a dictionary from
  the identifier to the list of activities.
\<close>

type_synonym rider_ref = nat
type_synonym driver_ref = nat

datatype category = RIDER | DRIVER

datatype description = REQUEST | CANCEL | PICKUP | DROPOFF

text \<open>\<open>Activity(timestamp, description, identifier, location)\<close>\<close>

datatype activity = Activity int description string "location option"

type_synonym monitor = "category \<Rightarrow> string \<Rightarrow> activity list option"

record world =
  drivers :: "driver_ref \<Rightarrow> driver"
  riders :: "rider_ref \<Rightarrow> rider"
  avail_dr :: "driver_ref list"
  wait_rd :: "rider_ref list"
  activities :: monitor

text \<open>
  \<^verbatim>\<open>
  if identifier not in self._activities[category]:
      self._activities[category][identifier] = []
  activity = Activity(timestamp, description, identifier, location)
  self._activities[category][identifier].append(activity)\<close>
\<close>

definition notify ::
  "monitor \<Rightarrow> int \<Rightarrow> category \<Rightarrow> description \<Rightarrow> string \<Rightarrow> location option \<Rightarrow> monitor" where
  "notify m timestamp cat descr ident loc =
     (let m' = (if m cat ident = None then m(cat := (m cat)(ident \<mapsto> [])) else m) in
      m'(cat := (m' cat)(ident \<mapsto> the (m' cat ident) @ [Activity timestamp descr ident loc])))"

text \<open>
  \<open>y == x\<close> on two references, as \<open>list.remove\<close> evaluates it: the same object, or
  two objects that their class's \<open>__eq__\<close> takes for equal.
\<close>

definition driver_ref_eq :: "world \<Rightarrow> driver_ref \<Rightarrow> driver_ref \<Rightarrow> bool" where
  "driver_ref_eq w y x \<longleftrightarrow> y = x \<or> Driver_eq (drivers w y) (drivers w x)"

definition rider_ref_eq :: "world \<Rightarrow> rider_ref \<Rightarrow> rider_ref \<Rightarrow> bool" where
  "rider_ref_eq w y x \<longleftrightarrow> y = x \<or> Rider_eq (riders w y) (riders w x)"

section \<open>The dispatcher (dispatcher.py)\<close>

text \<open>
  The loop of \<open>request_driver\<close> over the available drivers; \<open>tt\<close> is
  \<open>driver.get_travel_time(rider.origin)\<close>, which the loop calls a second time when
  it takes a driver.
  \<^verbatim>\<open>
  for driver in self.avail_dr:
      if driver.get_travel_time(rider.origin) < shortest_time:
          fastest_dr = driver
          shortest_time = driver.get_travel_time(rider.origin)\<close>
\<close>

fun fastest_loop ::
  "(driver_ref \<Rightarrow> error + int) \<Rightarrow> driver_ref list \<Rightarrow> driver_ref \<Rightarrow> int \<Rightarrow> error + (driver_ref \<times> int)" where
  "fastest_loop tt [] fastest_dr shortest_time = Inr (fastest_dr, shortest_time)"
| "fastest_loop tt (d # ds) fastest_dr shortest_time =
     (case tt d of
        Inl e \<Rightarrow> Inl e
      | Inr t \<Rightarrow>
          if t < shortest_time
          then (case tt d of Inl e \<Rightarrow> Inl e | Inr t' \<Rightarrow> fastest_loop tt ds d t')
          else fastest_loop tt ds fastest_dr shortest_time)"

definition request_driver :: "world \<Rightarrow> rider_ref \<Rightarrow> error + (driver_ref option \<times> world)" where
  "request_driver w rd =
     (if Queue_is_empty (avail_dr w)
      then Inr (None, w\<lparr>wait_rd := Queue_add (wait_rd w) rd\<rparr>)
      else if Queue_length (avail_dr w) = 1
      then (case Queue_remove (avail_dr w) of
              Inl e \<Rightarrow> Inl e
            | Inr (d, q) \<Rightarrow> Inr (Some d, w\<lparr>avail_dr := q\<rparr>))
      else
        (let tt = (\<lambda>d. get_travel_time (drivers w d) (origin (riders w rd))) in
         case Queue_first (avail_dr w) of
           Inl e \<Rightarrow> Inl e
         | Inr first_dr \<Rightarrow>
             (case tt first_dr of
                Inl e \<Rightarrow> Inl e
              | Inr first_time \<Rightarrow>
                  (case fastest_loop tt (avail_dr w) first_dr first_time of
                     Inl e \<Rightarrow> Inl e
                   | Inr (fastest_dr, shortest_time) \<Rightarrow>
                       (case Queue_spcl_remove (driver_ref_eq w) (avail_dr w) fastest_dr of
                          Inl e \<Rightarrow> Inl e
                        | Inr q \<Rightarrow> Inr (Some fastest_dr, w\<lparr>avail_dr := q\<rparr>))))))"

definition request_rider :: "world \<Rightarrow> driver_ref \<Rightarrow> error + (rider_ref option \<times> world)" where
  "request_rider w dr =
     (if Queue_is_empty (wait_rd w)
      then Inr (None, w\<lparr>avail_dr := Queue_add (avail_dr w) dr\<rparr>)
      else (case Queue_remove (wait_rd w) of
              Inl e \<Rightarrow> Inl e
            | Inr (r, q) \<Rightarrow> Inr (Some r, w\<lparr>wait_rd := q\<rparr>)))"

definition cancel_ride :: "world \<Rightarrow> rider_ref \<Rightarrow> error + world" where
  "cancel_ride w rd =
     (case Queue_spcl_remove (rider_ref_eq w) (wait_rd w) rd of
        Inl e \<Rightarrow> Inl e
      | Inr q \<Rightarrow> Inr (w\<lparr>wait_rd := q\<rparr>))"

section \<open>Events (event.py)\<close>

text \<open>
  The five concrete classes; the first argument is the timestamp.  Events compare by
  their timestamps.
\<close>

datatype event =
    RiderRequest int rider_ref
  | DriverRequest int driver_ref
  | Cancellation int rider_ref
  | Pickup int rider_ref driver_ref
  | Dropoff int rider_ref driver_ref

fun timestamp :: "event \<Rightarrow> int" where
  "timestamp (RiderRequest t r) = t"
| "timestamp (DriverRequest t d) = t"
| "timestamp (Cancellation t r) = t"
| "timestamp (Pickup t r d) = t"
| "timestamp (Dropoff t r d) = t"

definition Event_le :: "event \<Rightarrow> event \<Rightarrow> bool" where
  "Event_le self other \<longleftrightarrow> timestamp self \<le> timestamp other"

text \<open>
  \<open>do(dispatcher, monitor)\<close> of each class.  The result is what the method returns,
  \<open>None\<close> for Python's \<open>None\<close> and \<open>Some events\<close> for a list, and the objects after
  the call.
\<close>

definition RiderRequest_do :: "int \<Rightarrow> rider_ref \<Rightarrow> world \<Rightarrow> error + (event list option \<times> world)" where
  "RiderRequest_do t rd w =
     (let w1 = w\<lparr>activities := notify (activities w) t RIDER REQUEST
                  (rider_identifier (riders w rd)) (Some (origin (riders w rd)))\<rparr> in
      case request_driver w1 rd of
        Inl e \<Rightarrow> Inl e
      | Inr (None, w2) \<Rightarrow> Inr (Some [Cancellation (t + patience (riders w2 rd)) rd], w2)
      | Inr (Some dr, w2) \<Rightarrow>
          (case start_drive (drivers w2 dr) (origin (riders w2 rd)) of
             Inl e \<Rightarrow> Inl e
           | Inr (travel_time, dr') \<Rightarrow>
               Inr (Some [Pickup (t + travel_time) rd dr,
                          Cancellation (t + patience (riders w2 rd)) rd],
                    w2\<lparr>drivers := (drivers w2)(dr := dr')\<rparr>)))"

definition DriverRequest_do :: "int \<Rightarrow> driver_ref \<Rightarrow> world \<Rightarrow> error + (event list option \<times> world)" where
  "DriverRequest_do t dr w =
     (let w1 = w\<lparr>activities := notify (activities w) t DRIVER REQUEST
                  (driver_identifier (drivers w dr)) (location (drivers w dr))\<rparr> in
      case request_rider w1 dr of
        Inl e \<Rightarrow> Inl e
      | Inr (None, w2) \<Rightarrow> Inr (Some [], w2)
      | Inr (Some rd, w2) \<Rightarrow>
          (case start_drive (drivers w2 dr) (origin (riders w2 rd)) of
             Inl e \<Rightarrow> Inl e
           | Inr (travel_time, dr') \<Rightarrow>
               Inr (Some [Pickup (t + travel_time) rd dr],
                    w2\<lparr>drivers := (drivers w2)(dr := dr')\<rparr>)))"

definition Cancellation_do :: "int \<Rightarrow> rider_ref \<Rightarrow> world \<Rightarrow> error + (event list option \<times> world)" where
  "Cancellation_do t rd w =
     (let w1 = w\<lparr>activities := notify (activities w) t RIDER CANCEL
                  (rider_identifier (riders w rd)) (Some (origin (riders w rd)))\<rparr> in
      if status (riders w1 rd) = WAITING
      then Inr (None, w1\<lparr>riders := (riders w1)(rd := (riders w1 rd)\<lparr>status := CANCELLED\<rparr>)\<rparr>)
      else Inr (None, w1))"

definition Pickup_do :: "int \<Rightarrow> rider_ref \<Rightarrow> driver_ref \<Rightarrow> world \<Rightarrow> error + (event list option \<times> world)" where
  "Pickup_do t rd dr w =
     (let w1 = w\<lparr>activities := notify (activities w) t DRIVER PICKUP
                  (driver_identifier (drivers w dr)) (destination (drivers w dr))\<rparr>;
          w2 = w1\<lparr>activities := notify (activities w1) t RIDER PICKUP
                  (rider_identifier (riders w1 rd)) (Some (origin (riders w1 rd)))\<rparr>;
          w3 = w2\<lparr>drivers := (drivers w2)(dr := end_drive (drivers w2 dr))\<rparr> in
      if status (riders w3 rd) = WAITING
      then (case start_ride (drivers w3 dr) (riders w3 rd) of
              Inl e \<Rightarrow> Inl e
            | Inr (travel_time, dr', rd') \<Rightarrow>
                Inr (Some [Dropoff (t + travel_time) rd dr],
                     w3\<lparr>drivers := (drivers w3)(dr := dr'), riders := (riders w3)(rd := rd')\<rparr>))
      else if status (riders w3 rd) = CANCELLED
      then Inr (Some [DriverRequest t dr], w3)
      else Inr (Some [], w3))"

definition Dropoff_do :: "int \<Rightarrow> rider_ref \<Rightarrow> driver_ref \<Rightarrow> world \<Rightarrow> error + (event list option \<times> world)" where
  "Dropoff_do t rd dr w =
     (let w1 = w\<lparr>activities := notify (activities w) t DRIVER DROPOFF
                  (driver_identifier (drivers w dr)) (destination (drivers w dr))\<rparr>;
          w2 = w1\<lparr>drivers := (drivers w1)(dr := end_ride (drivers w1 dr))\<rparr> in
      Inr (Some [DriverRequest t dr], w2))"

text \<open>The method call \<open>event.do(dispatcher, monitor)\<close> selects by the class of the event.\<close>

fun event_do :: "event \<Rightarrow> world \<Rightarrow> error + (event list option \<times> world)" where
  "event_do (RiderRequest t rd) w = RiderRequest_do t rd w"
| "event_do (DriverRequest t dr) w = DriverRequest_do t dr w"
| "event_do (Cancellation t rd) w = Cancellation_do t rd w"
| "event_do (Pickup t rd dr) w = Pickup_do t rd dr w"
| "event_do (Dropoff t rd dr) w = Dropoff_do t rd dr w"

section \<open>Runs of the simulation\<close>

text \<open>Executing the given events one after the other, without regard to what they return.\<close>

fun do_all :: "event list \<Rightarrow> world \<Rightarrow> error + world" where
  "do_all [] w = Inr w"
| "do_all (e # es) w =
     (case event_do e w of Inl x \<Rightarrow> Inl x | Inr (res, w') \<Rightarrow> do_all es w')"

text \<open>
  Modelled from the spec: the engine that owns the queue of events (its module is not
  among the sources).  The specification has it pop the earliest event, invoke \<open>do\<close>
  and push every returned event back, from a seed of rider and driver requests, one per
  line of the input.  What is proved about all runs below is proved for every order of
  execution: a configuration is the world with the multiset of the events not yet
  executed, and a step executes any one of them that runs without an exception and adds
  the events it returns, none when it returns \<open>None\<close>.  The runs of an engine that pops
  the earliest event, and of one that fails on \<open>None\<close>, are among these.
\<close>

definition scheduled :: "event list option \<Rightarrow> event list" where
  "scheduled res = (case res of None \<Rightarrow> [] | Some events \<Rightarrow> events)"

inductive step :: "world \<times> event multiset \<Rightarrow> world \<times> event multiset \<Rightarrow> bool" where
  "e \<in># pending \<Longrightarrow> event_do e w = Inr (res, w') \<Longrightarrow>
   step (w, pending) (w', pending - {#e#} + mset (scheduled res))"

text \<open>The driver an event refers to.\<close>

fun event_driver :: "event \<Rightarrow> driver_ref option" where
  "event_driver (RiderRequest t rd) = None"
| "event_driver (DriverRequest t dr) = Some dr"
| "event_driver (Cancellation t rd) = None"
| "event_driver (Pickup t rd dr) = Some dr"
| "event_driver (Dropoff t rd dr) = Some dr"

fun is_request :: "event \<Rightarrow> bool" where
  "is_request (RiderRequest t rd) = True"
| "is_request (DriverRequest t dr) = True"
| "is_request e = False"

definition pending_for :: "driver_ref \<Rightarrow> event multiset \<Rightarrow> nat" where
  "pending_for dr pending = size {#e \<in># pending. event_driver e = Some dr#}"

text \<open>
  The start of a run: a new dispatcher, and a seed of requests in which every driver
  object has at most one request (\<open>create_event_list\<close> makes a new \<open>Driver\<close> for
  each \<open>DriverRequest\<close> line).
\<close>

definition initial :: "world \<times> event multiset \<Rightarrow> bool" where
  "initial c \<longleftrightarrow>
     avail_dr (fst c) = [] \<and> wait_rd (fst c) = [] \<and>
     (\<forall>e. e \<in># snd c \<longrightarrow> is_request e) \<and> (\<forall>dr. pending_for dr (snd c) \<le> 1)"

text \<open>
  Every driver is in at most one place: once in the pool of available drivers, or in
  one event that is still to be executed.  And a driver whose \<open>Dropoff\<close> is still to
  be executed, a driver on a ride, has \<open>is_idle\<close> set.
\<close>

definition places :: "world \<times> event multiset \<Rightarrow> driver_ref \<Rightarrow> nat" where
  "places c dr = count_list (avail_dr (fst c)) dr + pending_for dr (snd c)"

definition ride_inv :: "world \<times> event multiset \<Rightarrow> bool" where
  "ride_inv c \<longleftrightarrow>
     (\<forall>dr. places c dr \<le> 1) \<and>
     (\<forall>t rd dr. Dropoff t rd dr \<in># snd c \<longrightarrow> is_idle (drivers (fst c) dr))"

text \<open>
  The rider an event is still to bring together with a driver: the rider of a request
  and the rider of a pickup.
\<close>

fun waiting_rider :: "event \<Rightarrow> rider_ref option" where
  "waiting_rider (RiderRequest t rd) = Some rd"
| "waiting_rider (Pickup t rd dr) = Some rd"
| "waiting_rider e = None"

definition pending_rider :: "rider_ref \<Rightarrow> event multiset \<Rightarrow> nat" where
  "pending_rider rd pending = size {#e \<in># pending. waiting_rider e = Some rd#}"

text \<open>
  The riders of a seed: \<open>create_event_list\<close> makes a new \<open>Rider\<close>, whose status is
  waiting, for each \<open>RiderRequest\<close> line, so every rider object has at most one
  request.
\<close>

definition new_riders :: "world \<times> event multiset \<Rightarrow> bool" where
  "new_riders c \<longleftrightarrow>
     (\<forall>rd. pending_rider rd (snd c) \<le> 1) \<and>
     (\<forall>t rd. RiderRequest t rd \<in># snd c \<longrightarrow> status (riders (fst c) rd) = WAITING)"

text \<open>
  Every rider is in at most one place: once in the waiting queue, or in one request or
  pickup that is still to be executed.  And a rider who is satisfied is in none.
\<close>

definition rider_places :: "world \<times> event multiset \<Rightarrow> rider_ref \<Rightarrow> nat" where
  "rider_places c rd = count_list (wait_rd (fst c)) rd + pending_rider rd (snd c)"

definition pickup_inv :: "world \<times> event multiset \<Rightarrow> bool" where
  "pickup_inv c \<longleftrightarrow>
     (\<forall>rd. rider_places c rd \<le> 1) \<and>
     (\<forall>rd. status (riders (fst c) rd) = SATISFIED \<longrightarrow> rider_places c rd = 0)"

section \<open>The objects of the doctests\<close>

text \<open>
  The constructors, and the two drivers and two riders that the doctests of the
  sources use.  In \<open>doctest_world\<close> the driver references \<open>0\<close> and \<open>1\<close> are Charles
  and Bunny, the rider references \<open>0\<close> and \<open>1\<close> are Lola and Godzilla, the dispatcher
  and the monitor are new.
\<close>

definition Location :: "int \<Rightarrow> int \<Rightarrow> location" where
  "Location r c = \<lparr>row = r, column = c\<rparr>"

definition Rider :: "string \<Rightarrow> location \<Rightarrow> location \<Rightarrow> int \<Rightarrow> rider" where
  "Rider ident orig dest pat =
     \<lparr>rider_identifier = ident, origin = orig, rider_destination = dest, patience = pat,
      status = WAITING\<rparr>"

definition Driver :: "string \<Rightarrow> location \<Rightarrow> int \<Rightarrow> driver" where
  "Driver ident loc spd =
     \<lparr>driver_identifier = ident, location = Some loc, speed = spd, is_idle = True,
      destination = None\<rparr>"

definition new_world :: "(driver_ref \<Rightarrow> driver) \<Rightarrow> (rider_ref \<Rightarrow> rider) \<Rightarrow> world" where
  "new_world ds rs =
     \<lparr>drivers = ds, riders = rs, avail_dr = [], wait_rd = [], activities = (\<lambda>cat. Map.empty)\<rparr>"

definition Charles :: driver where
  "Charles = Driver ''Charles'' (Location 0 0) 3"

definition Bunny :: driver where
  "Bunny = Driver ''Bunny'' (Location 10 10) 2"

definition Lola :: rider where
  "Lola = Rider ''Lola'' (Location 0 0) (Location 5 4) 100"

definition Godzilla :: rider where
  "Godzilla = Rider ''Godzilla'' (Location 10 10) (Location 7 1) 10"

definition doctest_world :: world where
  "doctest_world = new_world ((\<lambda>_. Charles)(1 := Bunny)) ((\<lambda>_. Lola)(1 := Godzilla))"

text \<open>
  Charles has been sent to Lola.  In \<open>driving_world\<close> she is still waiting, in
  \<open>stood_up_world\<close> she has cancelled, in \<open>picked_up_world\<close> she has been picked up
  in the meantime.
\<close>

definition driving_world :: world where
  "driving_world =
     doctest_world
       \<lparr>drivers := (drivers doctest_world)
          (0 := Charles\<lparr>is_idle := False, destination := Some (Location 0 0)\<rparr>)\<rparr>"

definition stood_up_world :: world where
  "stood_up_world =
     driving_world\<lparr>riders := (riders driving_world)(0 := Lola\<lparr>status := CANCELLED\<rparr>)\<rparr>"

definition picked_up_world :: world where
  "picked_up_world =
     driving_world\<lparr>riders := (riders driving_world)(0 := Lola\<lparr>status := SATISFIED\<rparr>)\<rparr>"

section \<open>Properties of the float model\<close>

text \<open>
  \<open>floor_log2\<close> is the binary exponent, integers below \<open>2 ^ 53\<close> are floats, the square
  root of the square of such an integer is exact, and rounding never takes a value of
  the overflow range back into range.
\<close>

lemma two_powi_pos: "0 < (2::rat) powi k"
  by (simp add: power_int_def)

lemma floor_log2_bounds:
  assumes "0 < q"
  shows "2 powi floor_log2 q \<le> q \<and> q < 2 powi (floor_log2 q + 1)"
proof -
  obtain a b where ab: "quotient_of q = (a, b)"
    by (cases "quotient_of q")
  have b: "0 < b"
    using quotient_of_denom_pos [OF ab] .
  have q: "q = of_int a / of_int b"
    using quotient_of_div [OF ab] .
  have a: "0 < a"
    using assms b q by (simp add: zero_less_divide_iff)
  define la lb where "la = bitlen a" and "lb = bitlen b"
  have la1: "1 \<le> la" and lb1: "1 \<le> lb"
    using a b by (auto simp: la_def lb_def bitlen_alt_def)
  have "(2::int) ^ nat (la - 1) \<le> a" "a < 2 ^ nat la"
    using bitlen_bounds [OF a] by (auto simp: la_def)
  then have "(of_int (2 ^ nat (la - 1)) :: rat) \<le> of_int a" "(of_int a :: rat) < of_int (2 ^ nat la)"
    by (simp_all only: of_int_le_iff of_int_less_iff)
  then have A: "(2::rat) powi (la - 1) \<le> of_int a" "(of_int a :: rat) < 2 powi la"
    using la1 by (simp_all add: power_int_def)
  have "(2::int) ^ nat (lb - 1) \<le> b" "b < 2 ^ nat lb"
    using bitlen_bounds [OF b] by (auto simp: lb_def)
  then have "(of_int (2 ^ nat (lb - 1)) :: rat) \<le> of_int b" "(of_int b :: rat) < of_int (2 ^ nat lb)"
    by (simp_all only: of_int_le_iff of_int_less_iff)
  then have B: "(2::rat) powi (lb - 1) \<le> of_int b" "(of_int b :: rat) < 2 powi lb"
    using lb1 by (simp_all add: power_int_def)
  have "q < 2 powi la / 2 powi (lb - 1)"
    unfolding q using a A B by (intro frac_less) (simp_all add: two_powi_pos)
  then have up: "q < 2 powi (la - lb + 1)"
    by (simp add: power_int_diff [symmetric] algebra_simps)
  have "2 powi (la - 1) / 2 powi lb < q"
    unfolding q using b A B by (intro frac_less2) (simp_all add: two_powi_pos)
  then have lo: "2 powi (la - lb - 1) < q"
    by (simp add: power_int_diff [symmetric] algebra_simps)
  show ?thesis
    using up lo by (simp add: floor_log2_def ab Let_def la_def lb_def less_imp_le)
qed

lemma floor_log2_unique:
  assumes "2 powi k \<le> q" and "q < 2 powi (k + 1)"
  shows "floor_log2 q = k"
proof -
  have q: "0 < q"
    using two_powi_pos [of k] assms(1) by (rule less_le_trans)
  let ?j = "floor_log2 q"
  note b = floor_log2_bounds [OF q]
  have "\<not> ?j < k"
  proof
    assume "?j < k"
    then have "(2::rat) powi (?j + 1) \<le> 2 powi k"
      by (intro power_int_increasing) simp_all
    with assms(1) b show False by simp
  qed
  moreover have "\<not> k < ?j"
  proof
    assume "k < ?j"
    then have "(2::rat) powi (k + 1) \<le> 2 powi ?j"
      by (intro power_int_increasing) simp_all
    with assms(2) b show False by simp
  qed
  ultimately show ?thesis by simp
qed

lemma floor_log2_less:
  assumes "0 < q" and "q < 2 powi k"
  shows "floor_log2 q < k"
proof (rule ccontr)
  assume "\<not> floor_log2 q < k"
  then have "(2::rat) powi k \<le> 2 powi floor_log2 q"
    by (intro power_int_increasing) simp_all
  with floor_log2_bounds [OF assms(1)] assms(2) show False by simp
qed

lemma floor_log2_ge:
  assumes "2 powi k \<le> q"
  shows "k \<le> floor_log2 q"
proof (rule ccontr)
  assume "\<not> k \<le> floor_log2 q"
  then have "(2::rat) powi (floor_log2 q + 1) \<le> 2 powi k"
    by (intro power_int_increasing) simp_all
  moreover have "0 < q"
    using two_powi_pos [of k] assms by (rule less_le_trans)
  ultimately show False
    using floor_log2_bounds [of q] assms by simp
qed

lemma round_half_even_of_int: "round_half_even (of_int m) = m"
  by (simp add: round_half_even_def)

lemma round_half_even_ge_floor: "\<lfloor>q\<rfloor> \<le> round_half_even q"
  by (simp add: round_half_even_def Let_def)

lemma two_powi_nonpos: "e \<le> 0 \<Longrightarrow> (2::rat) powi e = 1 / 2 ^ nat (- e)"
  by (simp add: power_int_def field_simps)

lemma nearest_double_of_int:
  assumes "\<bar>n\<bar> < 2 ^ 53"
  shows "nearest_double (of_int n) = of_int n"
proof (cases "n = 0")
  case True
  then show ?thesis by (simp add: nearest_double_def)
next
  case False
  define e where "e = max (floor_log2 \<bar>of_int n\<bar> - 52) (- 1074)"
  have "(of_int \<bar>n\<bar> :: rat) < of_int (2 ^ 53)"
    using assms by (simp only: of_int_less_iff)
  then have "\<bar>of_int n :: rat\<bar> < 2 powi 53"
    by simp
  moreover have "0 < \<bar>of_int n :: rat\<bar>"
    using False by simp
  ultimately have "floor_log2 \<bar>of_int n\<bar> < 53"
    by (rule floor_log2_less [rotated])
  then have e: "e \<le> 0"
    by (simp add: e_def)
  have "of_int n / 2 powi e = (of_int (n * 2 ^ nat (- e)) :: rat)"
    by (simp add: two_powi_nonpos [OF e])
  then have "round_half_even (of_int n / 2 powi e) = n * 2 ^ nat (- e)"
    by (simp only: round_half_even_of_int)
  then have "nearest_double (of_int n) = of_int (n * 2 ^ nat (- e)) * 2 powi e"
    using False by (simp add: nearest_double_def e_def Let_def)
  also have "\<dots> = of_int n"
    by (simp add: two_powi_nonpos [OF e])
  finally show ?thesis .
qed

lemma isqrt_bounds: "isqrt n * isqrt n \<le> n \<and> n < (isqrt n + 1) * (isqrt n + 1)"
proof (induction n rule: isqrt.induct)
  case (1 n)
  show ?case
  proof (cases "n < 2")
    case True
    then have "isqrt n = n"
      by (subst isqrt.simps) simp
    moreover from True have "n = 0 \<or> n = 1"
      by auto
    ultimately show ?thesis by auto
  next
    case False
    define s where "s = isqrt (n div 4)"
    define A where "A = s * s"
    from 1 [OF False] have "A \<le> n div 4" "n div 4 < A + 2 * s + 1"
      by (simp_all add: s_def A_def algebra_simps)
    then have lo: "4 * A \<le> n" and hi: "n < 4 * A + 8 * s + 4"
      by linarith+
    have r: "(2 * s + 1) * (2 * s + 1) = 4 * A + 4 * s + 1"
       "(2 * s + 1 + 1) * (2 * s + 1 + 1) = 4 * A + 8 * s + 4"
       "(2 * s) * (2 * s) = 4 * A"
      by (simp_all add: A_def algebra_simps)
    have "isqrt n = (if (2 * s + 1) * (2 * s + 1) \<le> n then 2 * s + 1 else 2 * s)"
      using False by (subst isqrt.simps) (simp add: s_def Let_def)
    then show ?thesis
    proof (cases "(2 * s + 1) * (2 * s + 1) \<le> n")
      case True
      with \<open>isqrt n = _\<close> have "isqrt n = 2 * s + 1" by simp
      with True hi r show ?thesis by simp
    next
      case False
      with \<open>isqrt n = _\<close> have "isqrt n = 2 * s" by simp
      with False lo r show ?thesis by simp
    qed
  qed
qed

lemma isqrt_square: "isqrt (m * m) = m"
proof -
  let ?s = "isqrt (m * m)"
  have b: "?s * ?s \<le> m * m" "m * m < (?s + 1) * (?s + 1)"
    using isqrt_bounds [of "m * m"] by simp_all
  have "\<not> m < ?s"
  proof
    assume "m < ?s"
    then have "m * m \<le> m * ?s" "m * ?s < ?s * ?s" by simp_all
    with b show False by simp
  qed
  moreover have "\<not> ?s + 1 \<le> m"
  proof
    assume "?s + 1 \<le> m"
    then have "(?s + 1) * (?s + 1) \<le> m * m" by (intro mult_le_mono)
    with b show False by simp
  qed
  ultimately show ?thesis by simp
qed

lemma float_pow_half_square:
  assumes "0 \<le> d" and "d < 2 ^ 53"
  shows "float_pow_half ((of_int d)\<^sup>2) = of_int d"
proof (cases "d = 0")
  case True
  then show ?thesis by (simp add: float_pow_half_def)
next
  case False
  with assms have d: "0 < d" by simp
  define x :: rat where "x = (of_int d)\<^sup>2"
  define e where "e = floor_log2 x div 2 - 52"
  define N where "N = nat (- e)"
  have x: "0 < x"
    using d by (simp add: x_def)
  have "(of_int d :: rat) < of_int (2 ^ 53)"
    using assms(2) by (simp only: of_int_less_iff)
  then have "(of_int d :: rat) < 2 ^ 53"
    by simp
  then have "x < (2 ^ 53)\<^sup>2"
    unfolding x_def using d by (intro power_strict_mono) simp_all
  then have "x < 2 powi 106"
    by simp
  with x have "floor_log2 x < 106"
    by (rule floor_log2_less)
  then have e: "e \<le> 0"
    by (simp add: e_def)
  have p: "(2::rat) powi e = 1 / 2 ^ N"
    using e by (simp add: two_powi_nonpos N_def)
  have "2 * e \<le> 0" "nat (- (2 * e)) = 2 * N"
    using e by (simp_all add: N_def)
  then have p2: "(2::rat) powi (2 * e) = 1 / 2 ^ (2 * N)"
    using two_powi_nonpos [of "2 * e"] by simp
  define m where "m = d * 2 ^ N"
  have m: "0 < m"
    using d by (simp add: m_def)
  have t: "x / 2 powi (2 * e) = of_int (m * m)"
    by (simp add: p2 x_def m_def power2_eq_square power_mult_distrib power_even_eq
        flip: power_mult)
  have "\<lfloor>x / 2 powi (2 * e)\<rfloor> = m * m"
    by (simp only: t floor_of_int)
  moreover have "nat (m * m) = nat m * nat m"
    using m by (simp add: nat_mult_distrib)
  ultimately have i: "int (isqrt (nat \<lfloor>x / 2 powi (2 * e)\<rfloor>)) = m"
    using m by (simp only: isqrt_square)
  have c: "x / 2 powi (2 * e) < (of_int m + 1 / 2)\<^sup>2"
    using m unfolding t by (simp add: power2_eq_square algebra_simps)
  have "float_pow_half x = of_int m * 2 powi e"
    using x c unfolding float_pow_half_def Let_def e_def [symmetric] i
    by simp
  also have "\<dots> = of_int d"
    by (simp add: p m_def)
  finally show ?thesis
    by (simp add: x_def)
qed

lemma float_pow_half_of_int_square:
  assumes "\<bar>d\<bar> < 2 ^ 53"
  shows "float_pow_half (of_int (d\<^sup>2)) = of_int \<bar>d\<bar>"
proof -
  have "(of_int (d\<^sup>2) :: rat) = (of_int \<bar>d\<bar>)\<^sup>2"
    by simp
  then show ?thesis
    using float_pow_half_square [of "\<bar>d\<bar>"] assms by simp
qed

lemma int_to_float_exact:
  assumes "\<bar>n\<bar> < 2 ^ 53"
  shows "int_to_float n = Inr (of_int n)"
proof -
  have "(of_int \<bar>n\<bar> :: rat) < of_int (2 ^ 53)"
    using assms by (simp only: of_int_less_iff)
  then have "\<bar>of_int n :: rat\<bar> < 2 ^ 1024"
    by simp
  then show ?thesis
    by (simp add: int_to_float_def nearest_double_of_int [OF assms])
qed

lemma square_less_2_52:
  assumes "\<bar>d :: int\<bar> < 2 ^ 26"
  shows "\<bar>d\<^sup>2\<bar> < 2 ^ 53"
proof -
  have "\<bar>d\<bar>\<^sup>2 < (2 ^ 26)\<^sup>2"
    using assms by (intro power_strict_mono) simp_all
  then show ?thesis by simp
qed

lemma float_to_int_of_int: "float_to_int (of_int n) = n"
  by (simp add: float_to_int_def)

lemma manhattan_distance_small:
  assumes "\<bar>row b - row a\<bar> < 2 ^ 26"
    and "\<bar>column b - column a\<bar> < 2 ^ 26"
  shows "manhattan_distance a b =
     Inr (\<bar>row b - row a\<bar> + \<bar>column b - column a\<bar>)"
proof -
  define dr dc where "dr = row b - row a"
    and "dc = column b - column a"
  have r: "\<bar>dr\<bar> < 2 ^ 26" and c: "\<bar>dc\<bar> < 2 ^ 26"
    using assms by (simp_all add: dr_def dc_def)
  have r53: "\<bar>dr\<bar> < 2 ^ 53" and c53: "\<bar>dc\<bar> < 2 ^ 53"
    using r c by simp_all
  have s: "\<bar>\<bar>dr\<bar> + \<bar>dc\<bar>\<bar> < 2 ^ 53"
    using r c by simp
  have "float_add (of_int \<bar>dr\<bar>) (of_int \<bar>dc\<bar>) = of_int (\<bar>dr\<bar> + \<bar>dc\<bar>)"
    unfolding float_add_def of_int_add [symmetric] by (rule nearest_double_of_int [OF s])
  then have "float_to_int (float_add (of_int \<bar>dr\<bar>) (of_int \<bar>dc\<bar>)) = \<bar>dr\<bar> + \<bar>dc\<bar>"
    by (simp only: float_to_int_of_int)
  then show ?thesis
    unfolding manhattan_distance_def dr_def [symmetric] dc_def [symmetric]
    by (simp only: int_to_float_exact [OF square_less_2_52 [OF r]]
        int_to_float_exact [OF square_less_2_52 [OF c]]
        float_pow_half_of_int_square [OF r53] float_pow_half_of_int_square [OF c53]
        sum.case)
qed

lemma nearest_double_large:
  assumes "2 ^ 1024 \<le> q"
  shows "2 ^ 1024 \<le> nearest_double q"
proof -
  define k where "k = floor_log2 q"
  define e where "e = k - 52"
  have q: "0 < q"
    using assms by (rule less_le_trans [rotated]) simp
  have "(2::rat) powi 1024 \<le> q"
    using assms by simp
  then have k: "1024 \<le> k"
    unfolding k_def by (rule floor_log2_ge)
  have kq: "2 powi k \<le> q"
    using floor_log2_bounds [OF q] by (simp add: k_def)
  have pe: "0 < (2::rat) powi e"
    by (rule two_powi_pos)
  have "(2::rat) powi 52 * 2 powi e = 2 powi k"
    unfolding e_def by (subst power_int_add [symmetric]) simp_all
  then have "2 powi 52 * 2 powi e \<le> q"
    using kq by simp
  then have "(2::rat) ^ 52 \<le> q / 2 powi e"
    using pe by (simp add: pos_le_divide_eq)
  then have "(of_int (2 ^ 52) :: rat) \<le> q / 2 powi e"
    by simp
  then have "2 ^ 52 \<le> \<lfloor>q / 2 powi e\<rfloor>"
    by (simp only: le_floor_iff)
  then have "2 ^ 52 \<le> round_half_even (q / 2 powi e)"
    using round_half_even_ge_floor [of "q / 2 powi e"] by linarith
  then have "(of_int (2 ^ 52) :: rat) \<le> of_int (round_half_even (q / 2 powi e))"
    by (simp only: of_int_le_iff)
  then have "(of_int (2 ^ 52) :: rat) * 2 powi e \<le> of_int (round_half_even (q / 2 powi e)) * 2 powi e"
    using pe by (intro mult_right_mono) simp_all
  moreover have "(of_int (2 ^ 52) :: rat) * 2 powi e = 2 powi k"
    using \<open>2 powi 52 * 2 powi e = 2 powi k\<close> by simp
  ultimately have "(2::rat) powi k \<le> of_int (round_half_even (q / 2 powi e)) * 2 powi e"
    by (simp only:)
  moreover have "(2::rat) powi 1024 \<le> 2 powi k"
    using k by (intro power_int_increasing) simp_all
  moreover have "nearest_double q = of_int (round_half_even (q / 2 powi e)) * 2 powi e"
    using q k by (simp add: nearest_double_def Let_def k_def [symmetric] e_def max_def)
  ultimately show ?thesis
    by simp
qed

lemma int_to_float_overflow:
  assumes "2 ^ 1024 \<le> n"
  shows "int_to_float n = Inl OverflowError"
proof -
  have "(of_int (2 ^ 1024) :: rat) \<le> of_int n"
    using assms by (simp only: of_int_le_iff)
  then have "(2::rat) ^ 1024 \<le> of_int n"
    by simp
  then have "(2::rat) ^ 1024 \<le> nearest_double (of_int n)"
    by (rule nearest_double_large)
  then have "(2::rat) ^ 1024 \<le> \<bar>nearest_double (of_int n)\<bar>"
    by linarith
  then show ?thesis
    by (simp add: int_to_float_def Let_def)
qed

lemma int_true_div_exact:
  assumes "b \<noteq> 0" and "b dvd a" and "\<bar>a div b\<bar> < 2 ^ 53"
  shows "int_true_div a b = Inr (of_int (a div b))"
proof -
  have q: "(of_int a / of_int b :: rat) = of_int (a div b)"
    using assms(2) by (simp add: of_int_div)
  have "(of_int \<bar>a div b\<bar> :: rat) < of_int (2 ^ 53)"
    using assms(3) by (simp only: of_int_less_iff)
  then have "\<bar>of_int (a div b) :: rat\<bar> < 2 ^ 1024"
    by simp
  then show ?thesis
    using assms(1) by (simp add: int_true_div_def q nearest_double_of_int [OF assms(3)])
qed

lemma py_round_of_int: "py_round (of_int n) = n"
  by (simp add: py_round_def round_half_even_of_int)

section \<open>The distance between two locations\<close>

text \<open>
  Claim C9: for every pair of locations with integer rows and columns,
  \<open>manhattan_distance\<close> is exactly the sum of the absolute differences of the rows and of
  the columns.

  The function takes each absolute value as the float square root of the integer
  square.  For differences below \<open>2 ^ 26\<close> that is exact (\<open>manhattan_distance_small\<close>
  above).  Python integers have no bound, though, and a difference of \<open>2 ^ 512\<close> has the
  square \<open>2 ^ 1024\<close>, which is no float: instead of the distance \<open>2 ^ 512\<close> the call
  raises \<open>OverflowError\<close>.
\<close>

theorem manhattan_distance_raises_overflow:
  "manhattan_distance \<lparr>row = 0, column = 0\<rparr> \<lparr>row = 2 ^ 512, column = 0\<rparr> = Inl OverflowError"
proof -
  have "int_to_float ((2 ^ 512)\<^sup>2) = Inl OverflowError"
    by (rule int_to_float_overflow) simp
  then show ?thesis
    by (simp add: manhattan_distance_def)
qed

section \<open>Removing from an empty container\<close>

text \<open>
  Claim C8: \<open>remove\<close> on an empty queue or an empty priority queue fails, and so does
  \<open>first\<close> on an empty queue; on a container that holds an item none of the three
  raises.  The failure is the \<open>assert not self.is_empty()\<close> that opens each method,
  the error the specification calls EmptyContainer.
\<close>

theorem remove_and_first_fail_exactly_on_empty:
  "Queue_remove ([] :: 'a list) = Inl AssertionError \<and>
   PriorityQueue_remove ([] :: 'a list) = Inl AssertionError \<and>
   Queue_first ([] :: 'a list) = Inl AssertionError \<and>
   Queue_remove (x # xs) = Inr (x, xs) \<and>
   PriorityQueue_remove (x # xs) = Inr (x, xs) \<and>
   Queue_first (x # xs) = Inr x"
  by (simp add: Queue_remove_def PriorityQueue_remove_def Queue_first_def
      Queue_is_empty_def PriorityQueue_is_empty_def)

section \<open>Requests to the dispatcher\<close>

lemmas queue_defs = Queue_is_empty_def Queue_length_def Queue_add_def Queue_first_def
  Queue_remove_def Queue_spcl_remove_def

lemmas doctest_defs = doctest_world_def new_world_def Charles_def Bunny_def Lola_def Godzilla_def
  Driver_def Rider_def Location_def

text \<open>
  Claim C6: \<open>request_rider\<close> registers the driver in the pool of available drivers
  and returns \<open>None\<close> when no rider waits; otherwise it removes and returns the rider
  at the front of the waiting queue, the one that has waited longest.  A rider enqueued
  behind others stays behind them, and of two riders enqueued one after the other into
  an empty queue the first is returned.  The emptiness check guards the \<open>remove\<close>,
  whose assertion never fails here.
\<close>

theorem request_rider_registers_or_returns_front:
  "request_rider (w\<lparr>wait_rd := []\<rparr>) dr =
     Inr (None, w\<lparr>wait_rd := [], avail_dr := avail_dr w @ [dr]\<rparr>) \<and>
   request_rider (w\<lparr>wait_rd := r # rs\<rparr>) dr = Inr (Some r, w\<lparr>wait_rd := rs\<rparr>) \<and>
   request_rider (w\<lparr>wait_rd := Queue_add (r # rs) r'\<rparr>) dr =
     Inr (Some r, w\<lparr>wait_rd := rs @ [r']\<rparr>) \<and>
   request_rider (w\<lparr>wait_rd := Queue_add (Queue_add [] r1) r2\<rparr>) dr =
     Inr (Some r1, w\<lparr>wait_rd := [r2]\<rparr>)"
  by (simp add: request_rider_def queue_defs)

subsection \<open>The nearest driver\<close>

text \<open>
  Travel times that come out even: the distance is exact for coordinates below
  \<open>2 ^ 26\<close>, and where the speed divides it the quotient and its rounding are exact too.
\<close>

lemma get_travel_time_exact:
  assumes "location self = Some l"
    and "\<bar>row dest - row l\<bar> < 2 ^ 26" and "\<bar>column dest - column l\<bar> < 2 ^ 26"
    and "speed self \<noteq> 0"
    and "speed self dvd \<bar>row dest - row l\<bar> + \<bar>column dest - column l\<bar>"
  shows "get_travel_time self dest =
     Inr ((\<bar>row dest - row l\<bar> + \<bar>column dest - column l\<bar>) div speed self)"
proof -
  define m where "m = \<bar>row dest - row l\<bar> + \<bar>column dest - column l\<bar>"
  have "\<bar>m\<bar> < 2 ^ 27"
    using assms(2,3) by (simp add: m_def)
  moreover have "\<bar>m div speed self\<bar> \<le> \<bar>m\<bar>"
  proof -
    from assms(5) obtain k where k: "m = speed self * k"
      by (auto simp: m_def dvd_def)
    have "\<bar>k\<bar> * 1 \<le> \<bar>k\<bar> * \<bar>speed self\<bar>"
      using assms(4) by (intro mult_left_mono) auto
    then have "\<bar>k\<bar> \<le> \<bar>m\<bar>"
      by (simp add: k abs_mult mult.commute)
    moreover have "m div speed self = k"
      using assms(4) k by simp
    ultimately show ?thesis by simp
  qed
  ultimately have "\<bar>m div speed self\<bar> < 2 ^ 53"
    by simp
  then have "int_true_div m (speed self) = Inr (of_int (m div speed self))"
    using assms(4,5) by (intro int_true_div_exact) (simp_all add: m_def)
  then show ?thesis
    using assms(1) manhattan_distance_small [OF assms(2,3)]
    by (simp add: get_travel_time_def m_def py_round_of_int)
qed

text \<open>
  The loop keeps the first driver of the least travel time: the current best is replaced
  only by a driver that is strictly faster.
\<close>

lemma fastest_loop_first_min:
  assumes "\<forall>d\<in>set ds. tt d = Inr (time d)"
  shows "\<exists>f. fastest_loop tt ds f0 t0 = Inr (f, if \<forall>d\<in>set ds. t0 \<le> time d then t0 else time f) \<and>
     (if \<forall>d\<in>set ds. t0 \<le> time d then f = f0
      else \<exists>i<length ds. f = ds ! i \<and> time (ds ! i) < t0 \<and>
             (\<forall>j<length ds. time (ds ! i) \<le> time (ds ! j)) \<and>
             (\<forall>j<i. time (ds ! i) < time (ds ! j)))"
  using assms
proof (induction ds arbitrary: f0 t0)
  case Nil
  then show ?case by simp
next
  case (Cons d ds)
  have tt: "tt d = Inr (time d)" and rest: "\<forall>x\<in>set ds. tt x = Inr (time x)"
    using Cons.prems by simp_all
  show ?case
  proof (cases "time d < t0")
    case True
    from Cons.IH [OF rest, of d "time d"] obtain f where
      run: "fastest_loop tt ds d (time d) = Inr (f, if \<forall>x\<in>set ds. time d \<le> time x then time d else time f)"
      and f: "if \<forall>x\<in>set ds. time d \<le> time x then f = d
        else \<exists>i<length ds. f = ds ! i \<and> time (ds ! i) < time d \<and>
               (\<forall>j<length ds. time (ds ! i) \<le> time (ds ! j)) \<and>
               (\<forall>j<i. time (ds ! i) < time (ds ! j))"
      by blast
    show ?thesis
    proof (cases "\<forall>x\<in>set ds. time d \<le> time x")
      case all: True
      with f have "f = d" by simp
      moreover have "\<forall>j<length (d # ds). time d \<le> time ((d # ds) ! j)"
        using all by (auto simp: nth_Cons split: nat.splits)
      ultimately show ?thesis
        using True run all tt by (auto intro!: exI [of _ 0])
    next
      case notall: False
      with f obtain i where i: "i < length ds" "f = ds ! i" "time (ds ! i) < time d"
        "\<forall>j<length ds. time (ds ! i) \<le> time (ds ! j)" "\<forall>j<i. time (ds ! i) < time (ds ! j)"
        by auto
      have "\<forall>j<length (d # ds). time (ds ! i) \<le> time ((d # ds) ! j)"
        using i by (auto simp: nth_Cons split: nat.splits)
      moreover have "\<forall>j<Suc i. time (ds ! i) < time ((d # ds) ! j)"
        using i by (auto simp: nth_Cons split: nat.splits)
      ultimately show ?thesis
        using True run notall tt i by (auto intro!: exI [of _ "Suc i"])
    qed
  next
    case False
    from Cons.IH [OF rest, of f0 t0] obtain f where
      run: "fastest_loop tt ds f0 t0 = Inr (f, if \<forall>x\<in>set ds. t0 \<le> time x then t0 else time f)"
      and f: "if \<forall>x\<in>set ds. t0 \<le> time x then f = f0
        else \<exists>i<length ds. f = ds ! i \<and> time (ds ! i) < t0 \<and>
               (\<forall>j<length ds. time (ds ! i) \<le> time (ds ! j)) \<and>
               (\<forall>j<i. time (ds ! i) < time (ds ! j))"
      by blast
    show ?thesis
    proof (cases "\<forall>x\<in>set ds. t0 \<le> time x")
      case all: True
      with f False run tt show ?thesis by auto
    next
      case notall: False
      with f obtain i where i: "i < length ds" "f = ds ! i" "time (ds ! i) < t0"
        "\<forall>j<length ds. time (ds ! i) \<le> time (ds ! j)" "\<forall>j<i. time (ds ! i) < time (ds ! j)"
        by auto
      have "\<forall>j<length (d # ds). time (ds ! i) \<le> time ((d # ds) ! j)"
        using i False by (auto simp: nth_Cons split: nat.splits)
      moreover have "\<forall>j<Suc i. time (ds ! i) < time ((d # ds) ! j)"
        using i False by (auto simp: nth_Cons split: nat.splits)
      ultimately show ?thesis
        using False run notall tt i by (auto intro!: exI [of _ "Suc i"])
    qed
  qed
qed

text \<open>
  \<open>spcl_remove\<close> deletes the first driver that equals the chosen one.  Drivers that
  \<open>__eq__\<close> takes for equal have the same location and speed, hence the same travel
  time, so no earlier driver equals the first of the least travel time: the driver
  deleted is the driver returned.
\<close>

lemma list_remove_first_match:
  assumes "i < length xs" and "eq (xs ! i) x" and "\<forall>j<i. \<not> eq (xs ! j) x"
  shows "list_remove eq xs x = Inr (take i xs @ drop (Suc i) xs)"
  using assms
proof (induction xs arbitrary: i)
  case Nil
  then show ?case by simp
next
  case (Cons y ys)
  show ?case
  proof (cases i)
    case 0
    with Cons.prems show ?thesis by simp
  next
    case (Suc k)
    with Cons.prems have "\<not> eq y x" by auto
    moreover have "list_remove eq ys x = Inr (take k ys @ drop (Suc k) ys)"
      using Cons.prems Suc by (intro Cons.IH) auto
    ultimately show ?thesis using Suc by simp
  qed
qed

lemma Driver_eq_travel_time:
  "Driver_eq a b \<Longrightarrow> get_travel_time a dest = get_travel_time b dest"
  by (auto simp: Driver_eq_def get_travel_time_def split: option.splits sum.splits)

lemma request_driver_many:
  assumes len: "2 \<le> length (avail_dr w)"
    and tt: "\<forall>d\<in>set (avail_dr w). get_travel_time (drivers w d) (origin (riders w rd)) = Inr (time d)"
  shows "\<exists>i<length (avail_dr w).
      request_driver w rd =
        Inr (Some (avail_dr w ! i),
             w\<lparr>avail_dr := take i (avail_dr w) @ drop (Suc i) (avail_dr w)\<rparr>) \<and>
      (\<forall>j<length (avail_dr w). time (avail_dr w ! i) \<le> time (avail_dr w ! j)) \<and>
      (\<forall>j<i. time (avail_dr w ! i) < time (avail_dr w ! j))"
proof -
  define ds where "ds = avail_dr w"
  define tt' where "tt' = (\<lambda>d. get_travel_time (drivers w d) (origin (riders w rd)))"
  have ne: "ds \<noteq> []" and len': "length ds \<noteq> Suc 0" and pos: "0 < length ds"
    using len by (auto simp: ds_def)
  have tt': "\<forall>d\<in>set ds. tt' d = Inr (time d)"
    using tt by (simp add: ds_def tt'_def)
  have hd: "hd ds = ds ! 0" "hd ds \<in> set ds"
    using ne by (simp_all add: hd_conv_nth)
  then have tthd: "tt' (hd ds) = Inr (time (hd ds))"
    using tt' by blast
  from fastest_loop_first_min [OF tt', of "hd ds" "time (hd ds)"] obtain f where
    run: "fastest_loop tt' ds (hd ds) (time (hd ds)) =
        Inr (f, if \<forall>d\<in>set ds. time (hd ds) \<le> time d then time (hd ds) else time f)"
    and f: "if \<forall>d\<in>set ds. time (hd ds) \<le> time d then f = hd ds
      else \<exists>i<length ds. f = ds ! i \<and> time (ds ! i) < time (hd ds) \<and>
             (\<forall>j<length ds. time (ds ! i) \<le> time (ds ! j)) \<and>
             (\<forall>j<i. time (ds ! i) < time (ds ! j))"
    by blast
  have "\<exists>i<length ds. f = ds ! i \<and> (\<forall>j<length ds. time (ds ! i) \<le> time (ds ! j)) \<and>
      (\<forall>j<i. time (ds ! i) < time (ds ! j))"
  proof (cases "\<forall>d\<in>set ds. time (hd ds) \<le> time d")
    case True
    with f hd pos show ?thesis
      by (intro exI [of _ 0]) auto
  next
    case False
    with f show ?thesis by auto
  qed
  then obtain i where i: "i < length ds" "f = ds ! i"
    "\<forall>j<length ds. time (ds ! i) \<le> time (ds ! j)" "\<forall>j<i. time (ds ! i) < time (ds ! j)"
    by blast
  have "\<not> driver_ref_eq w (ds ! j) (ds ! i)" if "j < i" for j
  proof
    assume eq: "driver_ref_eq w (ds ! j) (ds ! i)"
    have "tt' (ds ! j) = tt' (ds ! i)"
      using eq by (auto simp: driver_ref_eq_def tt'_def dest: Driver_eq_travel_time)
    moreover have "ds ! j \<in> set ds" "ds ! i \<in> set ds"
      using that i(1) by simp_all
    ultimately have "time (ds ! j) = time (ds ! i)"
      using tt' by (metis sum.inject(2))
    with i(4) that show False by auto
  qed
  then have "list_remove (driver_ref_eq w) ds (ds ! i) = Inr (take i ds @ drop (Suc i) ds)"
    using i(1) by (intro list_remove_first_match) (auto simp: driver_ref_eq_def)
  then have "request_driver w rd = Inr (Some (ds ! i), w\<lparr>avail_dr := take i ds @ drop (Suc i) ds\<rparr>)"
    using ne len' run tthd i(2)
    by (simp add: request_driver_def Let_def queue_defs ds_def [symmetric] tt'_def [symmetric])
  with i show ?thesis
    unfolding ds_def by blast
qed



section \<open>The priority queue\<close>

text \<open>
  The loop of \<open>add\<close> stops at the first item that is not \<open><=\<close> the new one.  In a
  sorted queue that is behind all items \<open><=\<close> the new one.
\<close>

lemma add_loop_takeWhile:
  "i \<le> length items \<Longrightarrow>
   add_loop le items item i = i + length (takeWhile (\<lambda>y. le y item) (drop i items))"
proof (induction le items item i rule: add_loop.induct)
  case (1 le items item i)
  show ?case
  proof (cases "i < length items \<and> le (items ! i) item")
    case True
    then have d: "drop i items = items ! i # drop (Suc i) items"
      by (simp add: Cons_nth_drop_Suc)
    have "add_loop le items item i = add_loop le items item (i + 1)"
      using True by (subst add_loop.simps) simp
    also have "\<dots> = i + 1 + length (takeWhile (\<lambda>y. le y item) (drop (i + 1) items))"
      using True by (intro "1.IH") simp_all
    finally show ?thesis
      using True by (simp add: d)
  next
    case False
    then have "add_loop le items item i = i"
      by (subst add_loop.simps) auto
    moreover have "takeWhile (\<lambda>y. le y item) (drop i items) = []"
    proof (cases "i < length items")
      case True
      with False show ?thesis
        by (simp add: Cons_nth_drop_Suc [symmetric])
    next
      case False
      then show ?thesis by simp
    qed
    ultimately show ?thesis by simp
  qed
qed

lemma PriorityQueue_add_takeWhile:
  "PriorityQueue_add le items item =
     takeWhile (\<lambda>y. le y item) items @ [item] @ dropWhile (\<lambda>y. le y item) items"
  by (simp add: PriorityQueue_add_def add_loop_takeWhile Let_def
      takeWhile_eq_take [symmetric] dropWhile_eq_drop [symmetric])

lemma takeWhile_filter_sorted:
  assumes "\<forall>x y z. le x y \<longrightarrow> le y z \<longrightarrow> le x z" and "sorted_wrt le q"
  shows "takeWhile (\<lambda>y. le y x) q = filter (\<lambda>y. le y x) q \<and>
     dropWhile (\<lambda>y. le y x) q = filter (\<lambda>y. \<not> le y x) q"
  using assms(2)
proof (induction q)
  case Nil
  then show ?case by simp
next
  case (Cons a q)
  show ?case
  proof (cases "le a x")
    case True
    with Cons show ?thesis by simp
  next
    case False
    have "\<not> le z x" if "z \<in> set q" for z
    proof
      assume "le z x"
      moreover have "le a z" using Cons.prems that by simp
      ultimately have "le a x" using assms(1) by blast
      with False show False ..
    qed
    then have "filter (\<lambda>y. le y x) q = []" "filter (\<lambda>y. \<not> le y x) q = q"
      by (simp_all add: filter_empty_conv filter_id_conv)
    with False show ?thesis by simp
  qed
qed

lemma sorted_wrt_insert_between:
  assumes "sorted_wrt R q"
    and "\<forall>y\<in>set (takeWhile P q). R y x"
    and "\<forall>z\<in>set (dropWhile P q). R x z"
  shows "sorted_wrt R (takeWhile P q @ [x] @ dropWhile P q)"
proof -
  have "sorted_wrt R (takeWhile P q @ dropWhile P q)"
    using assms(1) by simp
  then have "\<forall>y\<in>set (takeWhile P q). \<forall>z\<in>set (dropWhile P q). R y z"
    "sorted_wrt R (takeWhile P q)" "sorted_wrt R (dropWhile P q)"
    unfolding sorted_wrt_append by blast+
  with assms(2,3) show ?thesis
    by (auto simp: sorted_wrt_append)
qed

lemma total_preorderD:
  assumes "total_preorder le"
  shows "le x y \<or> le y x" and "le x y \<Longrightarrow> le y z \<Longrightarrow> le x z"
  using assms unfolding total_preorder_def by blast+

lemma dropWhile_sorted_not_le:
  assumes "total_preorder le" and "sorted_wrt le q" and "z \<in> set (dropWhile (\<lambda>y. le y x) q)"
  shows "\<not> le z x"
proof -
  have "\<forall>a b c. le a b \<longrightarrow> le b c \<longrightarrow> le a c"
    using total_preorderD(2) [OF assms(1)] by blast
  then have "dropWhile (\<lambda>y. le y x) q = filter (\<lambda>y. \<not> le y x) q"
    using takeWhile_filter_sorted [of le q x] assms(2) by blast
  with assms(3) show ?thesis by simp
qed

lemma PriorityQueue_add_sorted:
  assumes "total_preorder le" and "sorted_wrt le q"
  shows "sorted_wrt le (PriorityQueue_add le q x)"
  unfolding PriorityQueue_add_takeWhile
proof (rule sorted_wrt_insert_between [OF assms(2)])
  show "\<forall>y\<in>set (takeWhile (\<lambda>y. le y x) q). le y x"
    by (auto dest: set_takeWhileD)
  show "\<forall>z\<in>set (dropWhile (\<lambda>y. le y x) q). le x z"
  proof
    fix z assume "z \<in> set (dropWhile (\<lambda>y. le y x) q)"
    then have "\<not> le z x"
      using assms by (rule dropWhile_sorted_not_le [rotated 2])
    then show "le x z"
      using total_preorderD(1) [OF assms(1), of x z] by blast
  qed
qed

lemma total_preorder_le_item: "total_preorder le \<Longrightarrow> total_preorder (le_item le)"
  unfolding total_preorder_def le_item_def by blast

lemma served_before_sorted_le_item:
  assumes "sorted_wrt (served_before le) qs"
  shows "sorted_wrt (le_item le) qs"
  using assms by (rule sorted_wrt_mono_rel [rotated]) (simp add: served_before_def le_item_def)

lemma PriorityQueue_add_served_before:
  assumes le: "total_preorder le"
    and q: "sorted_wrt (served_before le) qs"
    and n: "\<forall>y\<in>set qs. snd y < n"
  shows "sorted_wrt (served_before le) (PriorityQueue_add (le_item le) qs (x, n))"
  unfolding PriorityQueue_add_takeWhile
proof (rule sorted_wrt_insert_between [OF q])
  let ?P = "\<lambda>y. le_item le y (x, n)"
  show "\<forall>y\<in>set (takeWhile ?P qs). served_before le y (x, n)"
  proof
    fix y assume "y \<in> set (takeWhile ?P qs)"
    then have "y \<in> set qs" "le_item le y (x, n)"
      by (auto dest: set_takeWhileD)
    with n show "served_before le y (x, n)"
      by (simp add: served_before_def le_item_def)
  qed
  show "\<forall>z\<in>set (dropWhile ?P qs). served_before le (x, n) z"
  proof
    fix z assume "z \<in> set (dropWhile ?P qs)"
    then have "\<not> le_item le z (x, n)"
      using total_preorder_le_item [OF le] served_before_sorted_le_item [OF q]
      by (rule dropWhile_sorted_not_le [rotated 2])
    then have "\<not> le (fst z) x"
      by (simp add: le_item_def)
    moreover from this have "le x (fst z)"
      using total_preorderD(1) [OF le, of x "fst z"] by blast
    ultimately show "served_before le (x, n) z"
      by (simp add: served_before_def)
  qed
qed

text \<open>
  Claim C5: \<open>add\<close> inserts the item behind all items of the queue that compare less
  than or equal to it, and \<open>remove\<close> returns the minimum; so of two items that
  compare equal the one added earlier is removed first.

  A priority queue is sorted (the representation invariant of the class; the empty
  queue is, and \<open>add\<close> and \<open>remove\<close> keep it so).  The first two parts are the claim
  about \<open>add\<close> and about \<open>remove\<close>.  The last two are the order among ties: when
  every item carries the number of its \<open>add\<close> and the new item the largest number so
  far, the queue stays sorted by priority and, among equals, by that number, and the
  item that \<open>remove\<close> returns is served before every item that stays.
\<close>

theorem PriorityQueue_add_after_le_remove_min:
  assumes "total_preorder le"
  shows "(sorted_wrt le q \<longrightarrow>
            PriorityQueue_add le q x =
              filter (\<lambda>y. le y x) q @ [x] @ filter (\<lambda>y. \<not> le y x) q \<and>
            sorted_wrt le (PriorityQueue_add le q x)) \<and>
         (sorted_wrt le (m # q) \<longrightarrow>
            PriorityQueue_remove (m # q) = Inr (m, q) \<and> (\<forall>y\<in>set q. le m y) \<and> sorted_wrt le q) \<and>
         (sorted_wrt (served_before le) qs \<and> (\<forall>y\<in>set qs. snd y < n) \<longrightarrow>
            PriorityQueue_add (le_item le) qs (x, n) =
              filter (\<lambda>y. le (fst y) x) qs @ [(x, n)] @ filter (\<lambda>y. \<not> le (fst y) x) qs \<and>
            sorted_wrt (served_before le) (PriorityQueue_add (le_item le) qs (x, n))) \<and>
         (sorted_wrt (served_before le) (ms # qs) \<longrightarrow>
            PriorityQueue_remove (ms # qs) = Inr (ms, qs) \<and>
            (\<forall>y\<in>set qs. served_before le ms y) \<and> sorted_wrt (served_before le) qs)"
proof -
  have tr: "\<forall>a b c. le a b \<longrightarrow> le b c \<longrightarrow> le a c"
    using total_preorderD(2) [OF assms] by blast
  have tr': "\<forall>a b c. le_item le a b \<longrightarrow> le_item le b c \<longrightarrow> le_item le a c"
    using total_preorderD(2) [OF total_preorder_le_item [OF assms]] by blast
  have rm: "PriorityQueue_remove (a # as) = Inr (a, as)" for a :: 'b and as
    by (simp add: PriorityQueue_remove_def PriorityQueue_is_empty_def)
  have 1: "PriorityQueue_add le q x = filter (\<lambda>y. le y x) q @ [x] @ filter (\<lambda>y. \<not> le y x) q"
    if "sorted_wrt le q"
    using takeWhile_filter_sorted [OF tr that, of x] by (simp add: PriorityQueue_add_takeWhile)
  have 2: "PriorityQueue_add (le_item le) qs (x, n) =
      filter (\<lambda>y. le (fst y) x) qs @ [(x, n)] @ filter (\<lambda>y. \<not> le (fst y) x) qs"
    if "sorted_wrt (served_before le) qs"
    using takeWhile_filter_sorted [OF tr' served_before_sorted_le_item [OF that], of "(x, n)"]
    by (simp add: PriorityQueue_add_takeWhile le_item_def)
  show ?thesis
    using 1 2 PriorityQueue_add_sorted [OF assms, of q x]
      PriorityQueue_add_served_before [OF assms, of qs n x]
    by (simp add: rm)
qed

text \<open>
  Two rider requests at time 5, the one of rider 0 added before the one of rider 1: the
  second is inserted behind the first, and the first is removed first.
\<close>

theorem PriorityQueue_add_after_le_remove_min_witness:
  "total_preorder Event_le \<and>
   sorted_wrt Event_le [RiderRequest 5 0] \<and>
   PriorityQueue_add Event_le [RiderRequest 5 0] (RiderRequest 5 1) =
     [RiderRequest 5 0, RiderRequest 5 1] \<and>
   sorted_wrt Event_le [RiderRequest 5 0, RiderRequest 5 1] \<and>
   PriorityQueue_remove [RiderRequest 5 0, RiderRequest 5 1] =
     Inr (RiderRequest 5 0, [RiderRequest 5 1]) \<and>
   sorted_wrt (served_before Event_le) [(RiderRequest 5 0, 0)] \<and>
   snd (RiderRequest 5 0, 0 :: nat) < 1 \<and>
   PriorityQueue_add (le_item Event_le) [(RiderRequest 5 0, 0)] (RiderRequest 5 1, 1) =
     [(RiderRequest 5 0, 0), (RiderRequest 5 1, 1)] \<and>
   sorted_wrt (served_before Event_le) [(RiderRequest 5 0, 0), (RiderRequest 5 1, 1)] \<and>
   served_before Event_le (RiderRequest 5 0, 0) (RiderRequest 5 1, 1)"
proof -
  have le: "total_preorder Event_le"
    by (auto simp: total_preorder_def Event_le_def)
  have s1: "sorted_wrt Event_le [RiderRequest 5 0]"
    and s2: "sorted_wrt (served_before Event_le) [(RiderRequest 5 0, 0)]"
    and n: "\<forall>y\<in>set [(RiderRequest 5 0, 0 :: nat)]. snd y < 1"
    by simp_all
  note t = PriorityQueue_add_after_le_remove_min [OF le,
      where q = "[RiderRequest 5 0]" and x = "RiderRequest 5 1"
        and qs = "[(RiderRequest 5 0, 0)]" and n = 1]
  note u = PriorityQueue_add_after_le_remove_min [OF le,
      where q = "[RiderRequest 5 1]" and m = "RiderRequest 5 0"
        and qs = "[(RiderRequest 5 1, 1)]" and ms = "(RiderRequest 5 0, 0)"]
  from t s1 have a0: "PriorityQueue_add Event_le [RiderRequest 5 0] (RiderRequest 5 1) =
      filter (\<lambda>y. Event_le y (RiderRequest 5 1)) [RiderRequest 5 0] @ [RiderRequest 5 1] @
      filter (\<lambda>y. \<not> Event_le y (RiderRequest 5 1)) [RiderRequest 5 0]"
    and a2: "sorted_wrt Event_le (PriorityQueue_add Event_le [RiderRequest 5 0] (RiderRequest 5 1))"
    by blast+
  from a0 have a1: "PriorityQueue_add Event_le [RiderRequest 5 0] (RiderRequest 5 1) =
      [RiderRequest 5 0, RiderRequest 5 1]"
    by (simp add: Event_le_def)
  from t s2 n have b0: "PriorityQueue_add (le_item Event_le) [(RiderRequest 5 0, 0)] (RiderRequest 5 1, 1) =
      filter (\<lambda>y. Event_le (fst y) (RiderRequest 5 1)) [(RiderRequest 5 0, 0)] @
      [(RiderRequest 5 1, 1)] @
      filter (\<lambda>y. \<not> Event_le (fst y) (RiderRequest 5 1)) [(RiderRequest 5 0, 0)]"
    and b2: "sorted_wrt (served_before Event_le)
       (PriorityQueue_add (le_item Event_le) [(RiderRequest 5 0, 0)] (RiderRequest 5 1, 1))"
    by blast+
  from b0 have b1: "PriorityQueue_add (le_item Event_le) [(RiderRequest 5 0, 0)] (RiderRequest 5 1, 1) =
      [(RiderRequest 5 0, 0), (RiderRequest 5 1, 1)]"
    by (simp add: Event_le_def)
  from a2 have s3: "sorted_wrt Event_le [RiderRequest 5 0, RiderRequest 5 1]"
    unfolding a1 .
  from b2 have s4: "sorted_wrt (served_before Event_le) [(RiderRequest 5 0, 0), (RiderRequest 5 1, 1)]"
    unfolding b1 .
  from u s3 s4 have c: "PriorityQueue_remove [RiderRequest 5 0, RiderRequest 5 1] =
      Inr (RiderRequest 5 0, [RiderRequest 5 1])"
    "\<forall>y\<in>set [(RiderRequest 5 1, 1)]. served_before Event_le (RiderRequest 5 0, 0) y"
    by blast+
  from c(2) have c2: "served_before Event_le (RiderRequest 5 0, 0) (RiderRequest 5 1, 1)"
    by simp
  show ?thesis
    using le s1 s2 n a1 b1 s3 s4 c(1) c2 by simp
qed

section \<open>Executing events\<close>

text \<open>What the methods of the dispatcher and of a driver leave unchanged.\<close>

lemma request_driver_frame:
  assumes "request_driver w rd = Inr (x, w')"
  shows "\<exists>q q'. w' = w\<lparr>avail_dr := q, wait_rd := q'\<rparr>"
proof -
  have "\<exists>q. w' = w\<lparr>avail_dr := q\<rparr> \<or> w' = w\<lparr>wait_rd := q\<rparr>"
    using assms
    by (auto simp: request_driver_def Let_def split: if_splits sum.splits prod.splits)
  then obtain q where "w' = w\<lparr>avail_dr := q\<rparr> \<or> w' = w\<lparr>wait_rd := q\<rparr>" ..
  then show ?thesis
  proof
    assume "w' = w\<lparr>avail_dr := q\<rparr>"
    then have "w' = w\<lparr>avail_dr := q, wait_rd := wait_rd w\<rparr>" by simp
    then show ?thesis by blast
  next
    assume "w' = w\<lparr>wait_rd := q\<rparr>"
    then have "w' = w\<lparr>avail_dr := avail_dr w, wait_rd := q\<rparr>" by simp
    then show ?thesis by blast
  qed
qed

lemma request_rider_frame:
  assumes "request_rider w dr = Inr (x, w')"
  shows "\<exists>q q'. w' = w\<lparr>avail_dr := q, wait_rd := q'\<rparr>"
proof -
  have "w' = w\<lparr>avail_dr := avail_dr w', wait_rd := wait_rd w'\<rparr>"
    using assms
    by (auto simp: request_rider_def Let_def split: if_splits sum.splits prod.splits)
  then show ?thesis by blast
qed

lemma start_drive_result:
  assumes "start_drive self loc = Inr (t, self')"
  shows "self' = self\<lparr>is_idle := False, destination := Some loc\<rparr>"
  using assms by (auto simp: start_drive_def Let_def split: sum.splits)

lemma start_ride_result:
  assumes "start_ride self rd = Inr (t, self', rd')"
  shows "self' = self\<lparr>destination := Some (rider_destination rd)\<rparr> \<and> rd' = rd\<lparr>status := SATISFIED\<rparr>
    \<and> get_travel_time self' (rider_destination rd) = Inr t"
  using assms by (auto simp: start_ride_def Let_def split: sum.splits)

lemma RiderRequest_do_riders:
  assumes "RiderRequest_do t rd w = Inr (res, w')"
  shows "riders w' = riders w"
  using assms
  by (auto simp: RiderRequest_do_def Let_def split: sum.splits prod.splits option.splits
      dest!: request_driver_frame)

lemma DriverRequest_do_riders:
  assumes "DriverRequest_do t dr w = Inr (res, w')"
  shows "riders w' = riders w"
  using assms
  by (auto simp: DriverRequest_do_def Let_def split: sum.splits prod.splits option.splits
      dest!: request_rider_frame)

lemma Pickup_do_riders:
  assumes "Pickup_do t rd dr w = Inr (res, w')"
  shows "riders w' = riders w \<or>
     (status (riders w rd) = WAITING \<and> riders w' = (riders w)(rd := (riders w rd)\<lparr>status := SATISFIED\<rparr>))"
  using assms
  by (auto simp: Pickup_do_def Let_def split: sum.splits prod.splits if_splits
      dest!: start_ride_result)

lemma event_do_status:
  assumes "event_do e w = Inr (res, w')" and "status (riders w r) \<noteq> WAITING"
  shows "status (riders w' r) = status (riders w r)"
proof (cases e)
  case (RiderRequest t rd)
  with assms show ?thesis by (simp add: RiderRequest_do_riders)
next
  case (DriverRequest t dr)
  with assms show ?thesis by (simp add: DriverRequest_do_riders)
next
  case (Cancellation t rd)
  with assms show ?thesis
    by (auto simp: Cancellation_do_def Let_def split: if_splits)
next
  case (Pickup t rd dr)
  with assms Pickup_do_riders [of t rd dr w res w'] show ?thesis
    by (cases "r = rd") auto
next
  case (Dropoff t rd dr)
  with assms show ?thesis
    by (auto simp: Dropoff_do_def Let_def)
qed

subsection \<open>What \<open>do\<close> returns\<close>

text \<open>
  Claim C7: the \<open>do\<close> method of every kind of event returns a list of new events,
  that of \<open>Cancellation\<close> included.

  \<open>Event.do\<close> documents the return type \<open>list[Event]\<close>, and the other four classes
  return a list, the empty one when nothing is scheduled.  \<open>Cancellation.do\<close> has no
  \<open>return\<close> statement: in every state it returns \<open>None\<close>.
\<close>

theorem Cancellation_do_returns_None:
  "\<exists>w'. event_do (Cancellation t rd) w = Inr (None, w')"
  by (simp add: Cancellation_do_def Let_def)

subsection \<open>Cancellation\<close>

text \<open>
  Claim C4: a \<open>Cancellation\<close> sets the status of its rider to cancelled if the rider
  is still waiting, and otherwise changes nothing but the monitor; a satisfied rider
  stays satisfied.  Once the status of a rider is not waiting any more, no event of any
  kind changes it.
\<close>

theorem Cancellation_do_cancels_only_waiting:
  "(status (riders w rd) = WAITING \<longrightarrow>
      event_do (Cancellation t rd) w =
        Inr (None, w\<lparr>activities := notify (activities w) t RIDER CANCEL
                         (rider_identifier (riders w rd)) (Some (origin (riders w rd))),
                     riders := (riders w)(rd := (riders w rd)\<lparr>status := CANCELLED\<rparr>)\<rparr>)) \<and>
   (status (riders w rd) \<noteq> WAITING \<longrightarrow>
      event_do (Cancellation t rd) w =
        Inr (None, w\<lparr>activities := notify (activities w) t RIDER CANCEL
                         (rider_identifier (riders w rd)) (Some (origin (riders w rd)))\<rparr>)) \<and>
   (\<forall>r. event_do e w = Inr (res, w') \<and> status (riders w r) \<noteq> WAITING \<longrightarrow>
      status (riders w' r) = status (riders w r))"
  using event_do_status [of e w res w']
  by (auto simp: Cancellation_do_def Let_def)

text \<open>
  Lola waiting is cancelled; Lola picked up stays satisfied when her cancellation comes.
\<close>

theorem Cancellation_do_cancels_only_waiting_witness:
  "status (riders doctest_world 0) = WAITING \<and>
   map_sum id (\<lambda>p. status (riders (snd p) 0)) (event_do (Cancellation 100 0) doctest_world) =
     Inr CANCELLED \<and>
   status (riders picked_up_world 0) \<noteq> WAITING \<and>
   map_sum id (\<lambda>p. status (riders (snd p) 0)) (event_do (Cancellation 100 0) picked_up_world) =
     Inr SATISFIED"
proof -
  have w: "status (riders doctest_world 0) = WAITING"
    by (simp add: doctest_defs)
  have s: "status (riders picked_up_world 0) \<noteq> WAITING"
    "status (riders picked_up_world 0) = SATISFIED"
    by (simp_all add: picked_up_world_def driving_world_def doctest_defs)
  define w' where "w' = picked_up_world\<lparr>activities :=
      notify (activities picked_up_world) 100 RIDER CANCEL
        (rider_identifier (riders picked_up_world 0)) (Some (origin (riders picked_up_world 0)))\<rparr>"
  note a = Cancellation_do_cancels_only_waiting [of doctest_world 0 100]
  note b = Cancellation_do_cancels_only_waiting
    [of picked_up_world 0 100 "Cancellation 100 0" None w']
  from a w have 1: "map_sum id (\<lambda>p. status (riders (snd p) 0))
      (event_do (Cancellation 100 0) doctest_world) = Inr CANCELLED"
    by simp
  from b s(1) have run: "event_do (Cancellation 100 0) picked_up_world = Inr (None, w')"
    unfolding w'_def by blast
  with b s(1) have "status (riders w' 0) = status (riders picked_up_world 0)"
    by blast
  with run s(2) have 2: "map_sum id (\<lambda>p. status (riders (snd p) 0))
      (event_do (Cancellation 100 0) picked_up_world) = Inr SATISFIED"
    by simp
  show ?thesis
    using w s(1) 1 2 by simp
qed

section \<open>Whole runs\<close>

subsection \<open>A rider who cancels while waiting\<close>

text \<open>
  Claim C2: in every state that a run reaches, a rider is in the waiting queue if and
  only if the rider's status is waiting and no driver has been committed to the rider
  (and a driver is in the pool if and only if idle without an assignment, and nobody is
  in two of the structures).

  \<open>Dispatcher.cancel_ride\<close> takes a rider out of the waiting queue, but no event
  calls it: \<open>Cancellation.do\<close> only sets the status.  With the seed of one request of
  Lola and no driver, the request puts her into the queue and returns her cancellation
  for time 100; after that cancellation she is cancelled and still in the queue.
\<close>

theorem cancelled_rider_stays_in_wait_rd:
  "map_sum id fst (event_do (RiderRequest 0 0) doctest_world) = Inr (Some [Cancellation 100 0]) \<and>
   map_sum id (\<lambda>w. (wait_rd w, status (riders w 0)))
     (do_all [RiderRequest 0 0] doctest_world) = Inr ([0], WAITING) \<and>
   map_sum id (\<lambda>w. (wait_rd w, status (riders w 0)))
     (do_all [RiderRequest 0 0, Cancellation 100 0] doctest_world) = Inr ([0], CANCELLED)"
  by (simp add: RiderRequest_do_def Cancellation_do_def request_driver_def queue_defs Let_def
      doctest_defs)

subsection \<open>A driver on a ride\<close>

text \<open>
  What a successful \<open>request_driver\<close> does to the pool, whatever the travel times: the
  loop has computed one for every driver once it returns.
\<close>

lemma fastest_loop_Inr_all:
  assumes "fastest_loop tt ds f t = Inr x"
  shows "\<forall>d\<in>set ds. \<exists>u. tt d = Inr u"
  using assms
  by (induction ds arbitrary: f t) (auto split: sum.splits if_splits)

lemma request_driver_Some:
  assumes "request_driver w rd = Inr (Some d, w')"
  shows "\<exists>i<length (avail_dr w). avail_dr w ! i = d \<and>
     w' = w\<lparr>avail_dr := take i (avail_dr w) @ drop (Suc i) (avail_dr w)\<rparr>"
proof -
  consider "avail_dr w = []" | x where "avail_dr w = [x]" | "2 \<le> length (avail_dr w)"
    by (cases "avail_dr w" rule: list.exhaust; cases "tl (avail_dr w)") auto
  then show ?thesis
  proof cases
    case 1
    with assms show ?thesis
      by (simp add: request_driver_def queue_defs)
  next
    case 2
    with assms show ?thesis
      by (auto simp: request_driver_def queue_defs)
  next
    case 3
    define tt where "tt = (\<lambda>d. get_travel_time (drivers w d) (origin (riders w rd)))"
    define time where "time = (\<lambda>d. case tt d of Inr u \<Rightarrow> u | Inl e \<Rightarrow> 0)"
    from 3 have ne: "\<not> Queue_is_empty (avail_dr w)" "Queue_length (avail_dr w) \<noteq> 1"
      by (auto simp: queue_defs)
    from assms obtain f t x where "fastest_loop tt (avail_dr w) f t = Inr x"
      unfolding request_driver_def tt_def [symmetric] Let_def using ne
      by (auto split: sum.splits prod.splits)
    then have "\<forall>d\<in>set (avail_dr w). \<exists>u. tt d = Inr u"
      by (rule fastest_loop_Inr_all)
    then have "\<forall>d\<in>set (avail_dr w). tt d = Inr (time d)"
      by (auto simp: time_def)
    with request_driver_many [of w rd time] 3 assms show ?thesis
      unfolding tt_def by auto
  qed
qed

lemma request_driver_None:
  assumes "request_driver w rd = Inr (None, w')"
  shows "w' = w\<lparr>wait_rd := wait_rd w @ [rd]\<rparr>"
  using assms
  by (auto simp: request_driver_def queue_defs Let_def split: if_splits sum.splits prod.splits)

lemma count_list_remove_nth:
  assumes "i < length xs"
  shows "count_list xs x = count_list (take i xs @ drop (Suc i) xs) x + (if xs ! i = x then 1 else 0)"
proof -
  have "xs = take i xs @ xs ! i # drop (Suc i) xs"
    using assms by (rule id_take_nth_drop)
  then have "count_list xs x = count_list (take i xs @ xs ! i # drop (Suc i) xs) x"
    by simp
  then show ?thesis
    by simp
qed

lemma pending_for_simps [simp]:
  "pending_for d {#} = 0"
  "pending_for d (add_mset e M) = (if event_driver e = Some d then 1 else 0) + pending_for d M"
  "pending_for d (M + N) = pending_for d M + pending_for d N"
  by (simp_all add: pending_for_def)

lemma pending_for_member:
  assumes "e \<in># M" and "event_driver e = Some x"
  shows "1 \<le> pending_for x M"
proof -
  from assms(1) obtain M' where "M = add_mset e M'"
    by (auto dest: multi_member_split)
  with assms(2) show ?thesis by simp
qed

text \<open>What each kind of event does to the pool, to the drivers and to the events to come.\<close>

lemma RiderRequest_do_cases:
  assumes "RiderRequest_do t rd w = Inr (res, w')"
  shows "(\<exists>c. res = Some [Cancellation c rd] \<and> avail_dr w' = avail_dr w \<and> drivers w' = drivers w) \<or>
     (\<exists>i p c. i < length (avail_dr w) \<and>
        res = Some [Pickup p rd (avail_dr w ! i), Cancellation c rd] \<and>
        avail_dr w' = take i (avail_dr w) @ drop (Suc i) (avail_dr w) \<and>
        (\<forall>x. x \<noteq> avail_dr w ! i \<longrightarrow> drivers w' x = drivers w x))"
proof -
  define w1 where "w1 = w\<lparr>activities := notify (activities w) t RIDER REQUEST
      (rider_identifier (riders w rd)) (Some (origin (riders w rd)))\<rparr>"
  have w1: "avail_dr w1 = avail_dr w" "drivers w1 = drivers w"
    by (simp_all add: w1_def)
  from assms obtain x w2 where rq: "request_driver w1 rd = Inr (x, w2)"
    unfolding RiderRequest_do_def Let_def w1_def [symmetric]
    by (auto split: sum.splits)
  show ?thesis
  proof (cases x)
    case None
    with rq have "w2 = w1\<lparr>wait_rd := wait_rd w1 @ [rd]\<rparr>"
      by (simp add: request_driver_None)
    with assms rq None w1 show ?thesis
      unfolding RiderRequest_do_def Let_def w1_def [symmetric]
      by auto
  next
    case (Some d)
    with rq obtain i where i: "i < length (avail_dr w1)" "avail_dr w1 ! i = d"
      "w2 = w1\<lparr>avail_dr := take i (avail_dr w1) @ drop (Suc i) (avail_dr w1)\<rparr>"
      using request_driver_Some [of w1 rd d w2] by blast
    from assms rq Some obtain p d' where
      "start_drive (drivers w2 d) (origin (riders w2 rd)) = Inr (p, d')"
      "res = Some [Pickup (t + p) rd d, Cancellation (t + patience (riders w2 rd)) rd]"
      "w' = w2\<lparr>drivers := (drivers w2)(d := d')\<rparr>"
      unfolding RiderRequest_do_def Let_def w1_def [symmetric]
      by (auto split: sum.splits)
    with i w1 show ?thesis
      by (intro disjI2 exI [of _ i]) auto
  qed
qed

lemma DriverRequest_do_cases:
  assumes "DriverRequest_do t dr w = Inr (res, w')"
  shows "(res = Some [] \<and> avail_dr w' = avail_dr w @ [dr] \<and> drivers w' = drivers w) \<or>
     (\<exists>p rd. res = Some [Pickup p rd dr] \<and> avail_dr w' = avail_dr w \<and>
        (\<forall>x. x \<noteq> dr \<longrightarrow> drivers w' x = drivers w x))"
  using assms
  by (auto simp: DriverRequest_do_def Let_def request_rider_def queue_defs
      split: sum.splits prod.splits option.splits if_splits)

lemma Cancellation_do_cases:
  assumes "Cancellation_do t rd w = Inr (res, w')"
  shows "res = None \<and> avail_dr w' = avail_dr w \<and> wait_rd w' = wait_rd w \<and> drivers w' = drivers w"
  using assms by (auto simp: Cancellation_do_def Let_def split: if_splits)

lemma Pickup_do_cases:
  assumes "Pickup_do t rd dr w = Inr (res, w')"
  shows "avail_dr w' = avail_dr w \<and> (\<forall>x. x \<noteq> dr \<longrightarrow> drivers w' x = drivers w x) \<and>
     is_idle (drivers w' dr) \<and>
     ((\<exists>p. res = Some [Dropoff p rd dr]) \<or> res = Some [DriverRequest t dr] \<or> res = Some [])"
  using assms
  by (auto simp: Pickup_do_def Let_def end_drive_def
      split: sum.splits prod.splits if_splits dest!: start_ride_result)

lemma Dropoff_do_cases:
  assumes "Dropoff_do t rd dr w = Inr (res, w')"
  shows "avail_dr w' = avail_dr w \<and> (\<forall>x. x \<noteq> dr \<longrightarrow> drivers w' x = drivers w x) \<and>
     is_idle (drivers w' dr) \<and> res = Some [DriverRequest t dr]"
  using assms by (auto simp: Dropoff_do_def Let_def end_ride_def)

text \<open>
  An event never adds a place for a driver beyond the one it gives up itself; it clears
  \<open>is_idle\<close> only for a driver it takes from the pool or for its own driver; and the
  driver of a \<open>Dropoff\<close> it returns has \<open>is_idle\<close> set.
\<close>

lemma event_do_places:
  assumes "event_do e w = Inr (res, w')"
  shows "count_list (avail_dr w') x + pending_for x (mset (scheduled res)) \<le>
     count_list (avail_dr w) x + (if event_driver e = Some x then 1 else 0)"
proof (cases e)
  case (RiderRequest t rd)
  with assms have "RiderRequest_do t rd w = Inr (res, w')" by simp
  from RiderRequest_do_cases [OF this] show ?thesis
  proof (elim disjE exE conjE)
    fix c assume "res = Some [Cancellation c rd]" "avail_dr w' = avail_dr w"
    then show ?thesis by (simp add: scheduled_def)
  next
    fix i p c
    assume i: "i < length (avail_dr w)"
      and "res = Some [Pickup p rd (avail_dr w ! i), Cancellation c rd]"
      and "avail_dr w' = take i (avail_dr w) @ drop (Suc i) (avail_dr w)"
    then show ?thesis
      using count_list_remove_nth [OF i, of x] by (simp add: scheduled_def)
  qed
next
  case (DriverRequest t dr)
  with assms have "DriverRequest_do t dr w = Inr (res, w')" by simp
  from DriverRequest_do_cases [OF this] DriverRequest show ?thesis
    by (auto simp: scheduled_def)
next
  case (Cancellation t rd)
  with assms have "Cancellation_do t rd w = Inr (res, w')" by simp
  from Cancellation_do_cases [OF this] show ?thesis
    by (simp add: scheduled_def)
next
  case (Pickup t rd dr)
  with assms have "Pickup_do t rd dr w = Inr (res, w')" by simp
  from Pickup_do_cases [OF this] Pickup show ?thesis
    by (auto simp: scheduled_def)
next
  case (Dropoff t rd dr)
  with assms have "Dropoff_do t rd dr w = Inr (res, w')" by simp
  from Dropoff_do_cases [OF this] Dropoff show ?thesis
    by (auto simp: scheduled_def)
qed

lemma event_do_is_idle:
  assumes "event_do e w = Inr (res, w')" and "is_idle (drivers w x)"
  shows "is_idle (drivers w' x) \<or> x \<in> set (avail_dr w) \<or> event_driver e = Some x"
proof (cases e)
  case (RiderRequest t rd)
  with assms have "RiderRequest_do t rd w = Inr (res, w')" by simp
  from RiderRequest_do_cases [OF this] assms(2) show ?thesis
    by (metis nth_mem)
next
  case (DriverRequest t dr)
  with assms have "DriverRequest_do t dr w = Inr (res, w')" by simp
  from DriverRequest_do_cases [OF this] DriverRequest assms(2) show ?thesis
    by (cases "x = dr") auto
next
  case (Cancellation t rd)
  with assms have "Cancellation_do t rd w = Inr (res, w')" by simp
  from Cancellation_do_cases [OF this] assms(2) show ?thesis
    by simp
next
  case (Pickup t rd dr)
  with assms have "Pickup_do t rd dr w = Inr (res, w')" by simp
  from Pickup_do_cases [OF this] Pickup assms(2) show ?thesis
    by (cases "x = dr") auto
next
  case (Dropoff t rd dr)
  with assms have "Dropoff_do t rd dr w = Inr (res, w')" by simp
  from Dropoff_do_cases [OF this] Dropoff assms(2) show ?thesis
    by (cases "x = dr") auto
qed

lemma event_do_new_Dropoff:
  assumes "event_do e w = Inr (res, w')" and "Dropoff t r x \<in> set (scheduled res)"
  shows "is_idle (drivers w' x)"
proof (cases e)
  case (RiderRequest t rd)
  with assms have "RiderRequest_do t rd w = Inr (res, w')" by simp
  from RiderRequest_do_cases [OF this] assms(2) show ?thesis
    by (auto simp: scheduled_def)
next
  case (DriverRequest t dr)
  with assms have "DriverRequest_do t dr w = Inr (res, w')" by simp
  from DriverRequest_do_cases [OF this] assms(2) show ?thesis
    by (auto simp: scheduled_def)
next
  case (Cancellation t rd)
  with assms have "Cancellation_do t rd w = Inr (res, w')" by simp
  from Cancellation_do_cases [OF this] assms(2) show ?thesis
    by (simp add: scheduled_def)
next
  case (Pickup t rd dr)
  with assms have "Pickup_do t rd dr w = Inr (res, w')" by simp
  from Pickup_do_cases [OF this] assms(2) show ?thesis
    by (auto simp: scheduled_def)
next
  case (Dropoff t rd dr)
  with assms have "Dropoff_do t rd dr w = Inr (res, w')" by simp
  from Dropoff_do_cases [OF this] assms(2) show ?thesis
    by (auto simp: scheduled_def)
qed

text \<open>The invariant holds at the start of a run and every step keeps it.\<close>

lemma ride_inv_initial:
  assumes "initial c"
  shows "ride_inv c"
proof -
  have "\<not> Dropoff t rd dr \<in># snd c" for t rd dr
    using assms by (auto simp: initial_def)
  then show ?thesis
    using assms by (simp add: ride_inv_def places_def initial_def)
qed

lemma ride_inv_step:
  assumes inv: "ride_inv c" and st: "step c c'"
  shows "ride_inv c'"
  using st
proof cases
  case (1 e pending w res w')
  from \<open>e \<in># pending\<close> obtain M where M: "pending = add_mset e M"
    by (auto dest: multi_member_split)
  then have c': "c' = (w', M + mset (scheduled res))"
    using 1 by simp
  have pl: "count_list (avail_dr w) x + (if event_driver e = Some x then 1 else 0) +
      pending_for x M \<le> 1" for x
    using inv unfolding ride_inv_def places_def 1 M
    by (simp add: add.commute add.left_commute)
  have places: "places c' x \<le> 1" for x
    using event_do_places [OF \<open>event_do e w = Inr (res, w')\<close>, of x] pl [of x]
    by (simp add: places_def c')
  have idle: "is_idle (drivers w' x)" if "Dropoff t r x \<in># M + mset (scheduled res)" for t r x
  proof (cases "Dropoff t r x \<in> set (scheduled res)")
    case True
    with \<open>event_do e w = Inr (res, w')\<close> show ?thesis
      by (rule event_do_new_Dropoff)
  next
    case False
    with that have m: "Dropoff t r x \<in># M"
      by simp
    then have "1 \<le> pending_for x M"
      by (rule pending_for_member) simp
    with pl [of x] have "count_list (avail_dr w) x = 0" "event_driver e \<noteq> Some x"
      by (auto split: if_splits)
    then have "x \<notin> set (avail_dr w)" "event_driver e \<noteq> Some x"
      by (simp_all add: count_list_0_iff)
    moreover have "is_idle (drivers w x)"
      using inv m unfolding ride_inv_def 1 M by auto
    ultimately show ?thesis
      using event_do_is_idle [OF \<open>event_do e w = Inr (res, w')\<close>, of x] by blast
  qed
  show ?thesis
    unfolding ride_inv_def using places idle by (auto simp: c')
qed

lemma ride_inv_reachable:
  assumes "initial c0" and "step\<^sup>*\<^sup>* c0 c"
  shows "ride_inv c"
  using assms(2)
proof (induction rule: rtranclp_induct)
  case base
  from assms(1) show ?case by (rule ride_inv_initial)
next
  case (step c c')
  then show ?case by (auto intro: ride_inv_step)
qed

text \<open>
  Claim C10: \<open>start_ride\<close> assigns only the destination of the driver and the status of
  the rider, not \<open>is_idle\<close>.  \<open>Pickup.do\<close> calls \<open>end_drive\<close>, which sets
  \<open>is_idle\<close>, before \<open>start_ride\<close>; so a driver is reported idle all through a ride,
  from the pickup to the dropoff: in every configuration that a run reaches, whatever
  the order in which the events are executed, the driver of a \<open>Dropoff\<close> that is still
  to be executed has \<open>is_idle\<close> set.
\<close>

theorem driver_is_idle_during_ride:
  "(start_ride self rd = Inr (t, self', rd') \<longrightarrow>
      self' = self\<lparr>destination := Some (rider_destination rd)\<rparr> \<and>
      rd' = rd\<lparr>status := SATISFIED\<rparr> \<and> is_idle self' = is_idle self) \<and>
   (event_do (Pickup u r d) w = Inr (Some [Dropoff u' r d], w') \<longrightarrow> is_idle (drivers w' d)) \<and>
   (initial c0 \<and> step\<^sup>*\<^sup>* c0 (v, pending) \<and> Dropoff u'' r' d' \<in># pending \<longrightarrow>
      is_idle (drivers v d'))"
proof -
  have 1: "self' = self\<lparr>destination := Some (rider_destination rd)\<rparr> \<and>
      rd' = rd\<lparr>status := SATISFIED\<rparr> \<and> is_idle self' = is_idle self"
    if "start_ride self rd = Inr (t, self', rd')"
    using start_ride_result [OF that] by simp
  have 2: "is_idle (drivers w' d)"
    if "event_do (Pickup u r d) w = Inr (Some [Dropoff u' r d], w')"
  proof -
    from that have "Pickup_do u r d w = Inr (Some [Dropoff u' r d], w')" by simp
    from Pickup_do_cases [OF this] show ?thesis by simp
  qed
  have 3: "is_idle (drivers v d')"
    if "initial c0 \<and> step\<^sup>*\<^sup>* c0 (v, pending) \<and> Dropoff u'' r' d' \<in># pending"
  proof -
    from that have "ride_inv (v, pending)" "Dropoff u'' r' d' \<in># pending"
      by (auto intro: ride_inv_reachable)
    then show ?thesis
      by (auto simp: ride_inv_def)
  qed
  from 1 2 3 show ?thesis
    by blast
qed

text \<open>
  Charles registers, Lola requests a driver, Charles picks her up: while the dropoff at
  time 3 is still to come, Charles is reported idle.
\<close>

lemma travel_time_from_origin:
  assumes "location self = Some (Location 0 0)" and "speed self = 3"
  shows "get_travel_time self (Location 0 0) = Inr 0"
    and "get_travel_time self (Location 5 4) = Inr 3"
  using assms
  by (subst get_travel_time_exact [where l = "Location 0 0"]; simp add: Location_def)+

theorem driver_is_idle_during_ride_witness:
  "map_sum id (\<lambda>p. is_idle (fst (snd p)))
     (start_ride (end_drive (drivers driving_world 0)) (riders driving_world 0)) = Inr True \<and>
   map_sum id (\<lambda>p. (fst p, is_idle (drivers (snd p) 0))) (event_do (Pickup 0 0 0) driving_world) =
     Inr (Some [Dropoff 3 0 0], True) \<and>
   (\<exists>w pending.
      initial (doctest_world, {#DriverRequest 0 0, RiderRequest 0 0#}) \<and>
      step\<^sup>*\<^sup>* (doctest_world, {#DriverRequest 0 0, RiderRequest 0 0#}) (w, pending) \<and>
      Dropoff 3 0 0 \<in># pending \<and> is_idle (drivers w 0))"
proof -
  let ?c0 = "(doctest_world, {#DriverRequest 0 0, RiderRequest 0 0#})"
  have init: "initial ?c0"
    by (simp add: initial_def doctest_world_def new_world_def)
  \<comment> \<open>the ride of Charles with Lola, started directly\<close>
  obtain t self' rd' where sr:
    "start_ride (end_drive (drivers driving_world 0)) (riders driving_world 0) = Inr (t, self', rd')"
    by (simp add: start_ride_def Let_def end_drive_def driving_world_def doctest_defs
        travel_time_from_origin [unfolded Location_def])
  from driver_is_idle_during_ride [of "end_drive (drivers driving_world 0)"
      "riders driving_world 0" t self' rd'] sr
  have "is_idle self' = is_idle (end_drive (drivers driving_world 0))"
    by blast
  with sr have 1: "map_sum id (\<lambda>p. is_idle (fst (snd p)))
     (start_ride (end_drive (drivers driving_world 0)) (riders driving_world 0)) = Inr True"
    by (simp add: end_drive_def)
  \<comment> \<open>the pickup\<close>
  obtain w' where pu: "event_do (Pickup 0 0 0) driving_world = Inr (Some [Dropoff 3 0 0], w')"
    by (simp add: Pickup_do_def start_ride_def Let_def end_drive_def driving_world_def doctest_defs
        travel_time_from_origin [unfolded Location_def])
  from driver_is_idle_during_ride [where u = 0 and r = 0 and d = 0 and w = driving_world
      and u' = 3 and w' = w'] pu
  have "is_idle (drivers w' 0)"
    by blast
  with pu have 2: "map_sum id (\<lambda>p. (fst p, is_idle (drivers (snd p) 0)))
      (event_do (Pickup 0 0 0) driving_world) = Inr (Some [Dropoff 3 0 0], True)"
    by simp
  \<comment> \<open>a run: Charles registers, Lola requests, Charles picks her up\<close>
  obtain w1 where w1: "event_do (DriverRequest 0 0) doctest_world = Inr (Some [], w1)"
    "avail_dr w1 = [0]" "wait_rd w1 = []" "drivers w1 = drivers doctest_world"
    "riders w1 = riders doctest_world"
    by (simp add: DriverRequest_do_def request_rider_def queue_defs Let_def
        doctest_world_def new_world_def)
  obtain w2 where w2: "event_do (RiderRequest 0 0) w1 =
      Inr (Some [Pickup 0 0 0, Cancellation 100 0], w2)"
    "drivers w2 0 = Charles\<lparr>is_idle := False, destination := Some (Location 0 0)\<rparr>"
    "riders w2 = riders doctest_world"
    using w1(2-5)
    by (simp add: RiderRequest_do_def request_driver_def start_drive_def queue_defs Let_def
        doctest_defs travel_time_from_origin [unfolded Location_def])
  obtain w3 where w3: "event_do (Pickup 0 0 0) w2 = Inr (Some [Dropoff 3 0 0], w3)"
    using w2(2,3)
    by (simp add: Pickup_do_def start_ride_def Let_def end_drive_def doctest_defs
        travel_time_from_origin [unfolded Location_def])
  have "step ?c0 (w1, {#DriverRequest 0 0, RiderRequest 0 0#} - {#DriverRequest 0 0#} +
      mset (scheduled (Some [])))"
    by (rule step.intros [OF _ w1(1)]) simp
  then have s1: "step ?c0 (w1, {#RiderRequest 0 0#})"
    by (simp add: scheduled_def)
  have "step (w1, {#RiderRequest 0 0#}) (w2, {#RiderRequest 0 0#} - {#RiderRequest 0 0#} +
      mset (scheduled (Some [Pickup 0 0 0, Cancellation 100 0])))"
    by (rule step.intros [OF _ w2(1)]) simp
  then have s2: "step (w1, {#RiderRequest 0 0#}) (w2, {#Pickup 0 0 0, Cancellation 100 0#})"
    by (simp add: scheduled_def)
  have "step (w2, {#Pickup 0 0 0, Cancellation 100 0#})
      (w3, {#Pickup 0 0 0, Cancellation 100 0#} - {#Pickup 0 0 0#} +
        mset (scheduled (Some [Dropoff 3 0 0])))"
    by (rule step.intros [OF _ w3]) simp
  then have s3: "step (w2, {#Pickup 0 0 0, Cancellation 100 0#})
      (w3, {#Dropoff 3 0 0, Cancellation 100 0#})"
    by (simp add: scheduled_def)
  from s1 s2 s3 have run: "step\<^sup>*\<^sup>* ?c0 (w3, {#Dropoff 3 0 0, Cancellation 100 0#})"
    by (meson rtranclp.rtrancl_into_rtrancl rtranclp.rtrancl_refl)
  have mem: "Dropoff 3 0 0 \<in># {#Dropoff 3 0 0, Cancellation 100 0#}"
    by simp
  from driver_is_idle_during_ride [where ?c0.0 = ?c0 and v = w3
      and pending = "{#Dropoff 3 0 0, Cancellation 100 0#}" and u'' = 3 and r' = 0 and d' = 0]
    init run mem
  have "is_idle (drivers w3 0)"
    by blast
  with init run mem have 3: "\<exists>w pending.
      initial ?c0 \<and> step\<^sup>*\<^sup>* ?c0 (w, pending) \<and>
      Dropoff 3 0 0 \<in># pending \<and> is_idle (drivers w 0)"
    by blast
  from 1 2 3 show ?thesis
    by simp
qed

subsection \<open>A pickup\<close>

text \<open>
  What each kind of event does to the waiting queue, to the riders and to the events to
  come.  \<open>Pickup.do\<close> has three ways out, by the status of the rider.
\<close>

lemma pending_rider_simps [simp]:
  "pending_rider r {#} = 0"
  "pending_rider r (add_mset e M) = (if waiting_rider e = Some r then 1 else 0) + pending_rider r M"
  "pending_rider r (M + N) = pending_rider r M + pending_rider r N"
  by (simp_all add: pending_rider_def)

lemma pending_rider_member:
  assumes "e \<in># M" and "waiting_rider e = Some r"
  shows "1 \<le> pending_rider r M"
proof -
  from assms(1) obtain M' where "M = add_mset e M'"
    by (auto dest: multi_member_split)
  with assms(2) show ?thesis by simp
qed

lemma RiderRequest_do_wait_rd:
  assumes "RiderRequest_do t rd w = Inr (res, w')"
  shows "riders w' = riders w \<and>
     ((\<exists>c. res = Some [Cancellation c rd] \<and> wait_rd w' = wait_rd w @ [rd]) \<or>
      (\<exists>p d c. res = Some [Pickup p rd d, Cancellation c rd] \<and> wait_rd w' = wait_rd w))"
proof -
  define w1 where "w1 = w\<lparr>activities := notify (activities w) t RIDER REQUEST
      (rider_identifier (riders w rd)) (Some (origin (riders w rd)))\<rparr>"
  have w1: "wait_rd w1 = wait_rd w" "riders w1 = riders w"
    by (simp_all add: w1_def)
  from assms obtain x w2 where rq: "request_driver w1 rd = Inr (x, w2)"
    unfolding RiderRequest_do_def Let_def w1_def [symmetric]
    by (auto split: sum.splits)
  show ?thesis
  proof (cases x)
    case None
    with rq have "w2 = w1\<lparr>wait_rd := wait_rd w1 @ [rd]\<rparr>"
      by (simp add: request_driver_None)
    with assms rq None w1 show ?thesis
      unfolding RiderRequest_do_def Let_def w1_def [symmetric]
      by auto
  next
    case (Some d)
    with rq obtain i where
      "w2 = w1\<lparr>avail_dr := take i (avail_dr w1) @ drop (Suc i) (avail_dr w1)\<rparr>"
      using request_driver_Some [of w1 rd d w2] by blast
    with assms rq Some w1 show ?thesis
      unfolding RiderRequest_do_def Let_def w1_def [symmetric]
      by (auto split: sum.splits)
  qed
qed

lemma DriverRequest_do_wait_rd:
  assumes "DriverRequest_do t dr w = Inr (res, w')"
  shows "riders w' = riders w \<and>
     ((res = Some [] \<and> wait_rd w' = wait_rd w) \<or>
      (\<exists>p r. res = Some [Pickup p r dr] \<and> wait_rd w = r # wait_rd w'))"
  using assms
  by (cases "wait_rd w")
     (auto simp: DriverRequest_do_def Let_def request_rider_def queue_defs
       split: sum.splits prod.splits option.splits if_splits)

lemma Cancellation_do_riders:
  assumes "Cancellation_do t rd w = Inr (res, w')"
  shows "res = None \<and> wait_rd w' = wait_rd w \<and>
     (status (riders w' x) = SATISFIED \<longrightarrow> status (riders w x) = SATISFIED)"
  using assms by (auto simp: Cancellation_do_def Let_def split: if_splits)

lemma Pickup_do_outcomes:
  assumes "Pickup_do t rd dr w = Inr (res, w')"
  shows "wait_rd w' = wait_rd w \<and>
     ((status (riders w rd) = WAITING \<and>
       (\<exists>p. get_travel_time
               ((end_drive (drivers w dr))\<lparr>destination := Some (rider_destination (riders w rd))\<rparr>)
               (rider_destination (riders w rd)) = Inr p \<and>
            res = Some [Dropoff (t + p) rd dr]) \<and>
       riders w' = (riders w)(rd := (riders w rd)\<lparr>status := SATISFIED\<rparr>)) \<or>
      (status (riders w rd) = CANCELLED \<and> res = Some [DriverRequest t dr] \<and> riders w' = riders w) \<or>
      (status (riders w rd) = SATISFIED \<and> res = Some [] \<and> riders w' = riders w))"
  using assms
  by (cases "status (riders w rd)")
     (auto simp: Pickup_do_def Let_def start_ride_def split: sum.splits)

lemma Dropoff_do_riders:
  assumes "Dropoff_do t rd dr w = Inr (res, w')"
  shows "wait_rd w' = wait_rd w \<and> riders w' = riders w \<and> res = Some [DriverRequest t dr]"
  using assms by (auto simp: Dropoff_do_def Let_def)

text \<open>
  An event never adds a place for a rider beyond the one it gives up itself, and the
  only event that satisfies a rider is the rider's own pickup, which leaves the rider in
  no place.
\<close>

lemma event_do_rider_places:
  assumes "event_do e w = Inr (res, w')"
  shows "count_list (wait_rd w') x + pending_rider x (mset (scheduled res)) \<le>
     count_list (wait_rd w) x + (if waiting_rider e = Some x then 1 else 0)"
proof (cases e)
  case (RiderRequest t rd)
  with assms have "RiderRequest_do t rd w = Inr (res, w')" by simp
  from RiderRequest_do_wait_rd [OF this] RiderRequest show ?thesis
    by (auto simp: scheduled_def)
next
  case (DriverRequest t dr)
  with assms have "DriverRequest_do t dr w = Inr (res, w')" by simp
  from DriverRequest_do_wait_rd [OF this] DriverRequest show ?thesis
    by (auto simp: scheduled_def)
next
  case (Cancellation t rd)
  with assms have "Cancellation_do t rd w = Inr (res, w')" by simp
  from Cancellation_do_riders [OF this] show ?thesis
    by (simp add: scheduled_def)
next
  case (Pickup t rd dr)
  with assms have "Pickup_do t rd dr w = Inr (res, w')" by simp
  from Pickup_do_outcomes [OF this] Pickup show ?thesis
    by (auto simp: scheduled_def)
next
  case (Dropoff t rd dr)
  with assms have "Dropoff_do t rd dr w = Inr (res, w')" by simp
  from Dropoff_do_riders [OF this] Dropoff show ?thesis
    by (auto simp: scheduled_def)
qed

lemma event_do_satisfied:
  assumes "event_do e w = Inr (res, w')" and "status (riders w' x) = SATISFIED"
  shows "status (riders w x) = SATISFIED \<or>
     (waiting_rider e = Some x \<and>
      count_list (wait_rd w') x + pending_rider x (mset (scheduled res)) = count_list (wait_rd w) x)"
proof (cases e)
  case (RiderRequest t rd)
  with assms have "RiderRequest_do t rd w = Inr (res, w')" by simp
  from RiderRequest_do_wait_rd [OF this] assms(2) show ?thesis
    by auto
next
  case (DriverRequest t dr)
  with assms have "DriverRequest_do t dr w = Inr (res, w')" by simp
  from DriverRequest_do_wait_rd [OF this] assms(2) show ?thesis
    by auto
next
  case (Cancellation t rd)
  with assms have "Cancellation_do t rd w = Inr (res, w')" by simp
  from Cancellation_do_riders [OF this, of x] assms(2) show ?thesis
    by simp
next
  case (Pickup t rd dr)
  with assms have "Pickup_do t rd dr w = Inr (res, w')" by simp
  from Pickup_do_outcomes [OF this] Pickup assms(2) show ?thesis
    by (cases "x = rd") (auto simp: scheduled_def)
next
  case (Dropoff t rd dr)
  with assms have "Dropoff_do t rd dr w = Inr (res, w')" by simp
  from Dropoff_do_riders [OF this] assms(2) show ?thesis
    by auto
qed

text \<open>
  The invariant holds at the start of a run and every step keeps it; so the rider of a
  pickup that is still to be executed is never satisfied already.
\<close>

lemma pickup_inv_initial:
  assumes "initial c" and "new_riders c"
  shows "pickup_inv c"
proof -
  have "status (riders (fst c) rd) \<noteq> SATISFIED" if "0 < pending_rider rd (snd c)" for rd
  proof -
    from that obtain e where e: "e \<in># snd c" "waiting_rider e = Some rd"
      unfolding pending_rider_def by (auto simp: filter_mset_eq_conv nonempty_has_size [symmetric])
    with assms(1) have "is_request e"
      by (simp add: initial_def)
    with e(2) obtain t where "e = RiderRequest t rd"
      by (cases e) auto
    with e(1) assms(2) show ?thesis
      by (auto simp: new_riders_def)
  qed
  then show ?thesis
    using assms by (auto simp: pickup_inv_def rider_places_def initial_def new_riders_def)
qed

lemma pickup_inv_step:
  assumes inv: "pickup_inv c" and st: "step c c'"
  shows "pickup_inv c'"
  using st
proof cases
  case (1 e pending w res w')
  from \<open>e \<in># pending\<close> obtain M where M: "pending = add_mset e M"
    by (auto dest: multi_member_split)
  then have c': "c' = (w', M + mset (scheduled res))"
    using 1 by simp
  note run = \<open>event_do e w = Inr (res, w')\<close>
  have pl: "count_list (wait_rd w) x + (if waiting_rider e = Some x then 1 else 0) +
      pending_rider x M \<le> 1" for x
    using inv unfolding pickup_inv_def rider_places_def 1 M
    by (simp add: add.commute add.left_commute)
  have sat: "count_list (wait_rd w) x + (if waiting_rider e = Some x then 1 else 0) +
      pending_rider x M = 0" if "status (riders w x) = SATISFIED" for x
    using inv that unfolding pickup_inv_def rider_places_def 1 M
    by (auto simp: add.commute add.left_commute)
  have places: "rider_places c' x \<le> 1" for x
    using event_do_rider_places [OF run, of x] pl [of x]
    by (simp add: rider_places_def c')
  have "rider_places c' x = 0" if "status (riders w' x) = SATISFIED" for x
    using event_do_satisfied [OF run that]
  proof
    assume "status (riders w x) = SATISFIED"
    from sat [OF this] event_do_rider_places [OF run, of x] show ?thesis
      by (simp add: rider_places_def c')
  next
    assume "waiting_rider e = Some x \<and>
      count_list (wait_rd w') x + pending_rider x (mset (scheduled res)) = count_list (wait_rd w) x"
    with pl [of x] show ?thesis
      by (simp add: rider_places_def c')
  qed
  with places show ?thesis
    unfolding pickup_inv_def by (auto simp: c')
qed

lemma pickup_inv_reachable:
  assumes "initial c0" and "new_riders c0" and "step\<^sup>*\<^sup>* c0 c"
  shows "pickup_inv c"
  using assms(3)
proof (induction rule: rtranclp_induct)
  case base
  from assms(1,2) show ?case by (rule pickup_inv_initial)
next
  case (step c c')
  then show ?case by (auto intro: pickup_inv_step)
qed

lemma pending_Pickup_not_satisfied:
  assumes "initial c0" and "new_riders c0" and "step\<^sup>*\<^sup>* c0 (w, pending)"
    and "Pickup t rd dr \<in># pending"
  shows "status (riders w rd) \<noteq> SATISFIED"
proof
  assume "status (riders w rd) = SATISFIED"
  moreover have "pickup_inv (w, pending)"
    using assms(1-3) by (rule pickup_inv_reachable)
  ultimately have "pending_rider rd pending = 0"
    by (auto simp: pickup_inv_def rider_places_def)
  moreover have "1 \<le> pending_rider rd pending"
    using assms(4) by (rule pending_rider_member) simp
  ultimately show False by simp
qed

text \<open>
  Claim C3: a \<open>Pickup\<close> at time \<open>t\<close> ends the drive of its driver (idle again, at the
  place that was the destination, no destination) and then: if the rider is waiting, the
  driver starts the ride, the rider is satisfied, and the one event returned is a
  \<open>Dropoff\<close> at \<open>t\<close> plus the travel time of the ride; if the rider has cancelled,
  the one event returned is a \<open>DriverRequest\<close> of the driver at the same time \<open>t\<close>.
  What a pickup returns is the one or the other, never both and never neither: in every
  run, whatever the order in which the events are executed, a pickup that is executed
  finds its rider waiting or cancelled and returns exactly that one event.  (The third
  way out of \<open>Pickup.do\<close>, the empty list, is for a rider who is satisfied already, and
  no run takes it.)  The travel time of the ride is the value that \<open>get_travel_time\<close>
  returns.
\<close>

theorem Pickup_do_emits_Dropoff_xor_DriverRequest:
  "(let arrived = end_drive (drivers w dr);
        riding = arrived\<lparr>destination := Some (rider_destination (riders w rd))\<rparr>;
        w3 = w\<lparr>activities :=
                  notify (notify (activities w) t DRIVER PICKUP
                            (driver_identifier (drivers w dr)) (destination (drivers w dr)))
                    t RIDER PICKUP (rider_identifier (riders w rd)) (Some (origin (riders w rd))),
                drivers := (drivers w)(dr := arrived)\<rparr>
    in is_idle arrived \<and> location arrived = destination (drivers w dr) \<and>
       destination arrived = None \<and>
       (status (riders w rd) = WAITING \<longrightarrow>
          (\<forall>tt. get_travel_time riding (rider_destination (riders w rd)) = Inr tt \<longrightarrow>
             event_do (Pickup t rd dr) w =
               Inr (Some [Dropoff (t + tt) rd dr],
                    w3\<lparr>drivers := (drivers w)(dr := riding),
                       riders := (riders w)(rd := (riders w rd)\<lparr>status := SATISFIED\<rparr>)\<rparr>))) \<and>
       (status (riders w rd) = CANCELLED \<longrightarrow>
          event_do (Pickup t rd dr) w = Inr (Some [DriverRequest t dr], w3))) \<and>
   (initial c0 \<and> new_riders c0 \<and> step\<^sup>*\<^sup>* c0 (v, pending) \<and> Pickup u r d \<in># pending \<and>
    event_do (Pickup u r d) v = Inr (res, v') \<longrightarrow>
      (status (riders v r) = WAITING \<and>
       (\<exists>p. get_travel_time
               ((end_drive (drivers v d))\<lparr>destination := Some (rider_destination (riders v r))\<rparr>)
               (rider_destination (riders v r)) = Inr p \<and>
            res = Some [Dropoff (u + p) r d])) \<or>
      (status (riders v r) = CANCELLED \<and> res = Some [DriverRequest u d]))"
proof -
  have 1: "let arrived = end_drive (drivers w dr);
        riding = arrived\<lparr>destination := Some (rider_destination (riders w rd))\<rparr>;
        w3 = w\<lparr>activities :=
                  notify (notify (activities w) t DRIVER PICKUP
                            (driver_identifier (drivers w dr)) (destination (drivers w dr)))
                    t RIDER PICKUP (rider_identifier (riders w rd)) (Some (origin (riders w rd))),
                drivers := (drivers w)(dr := arrived)\<rparr>
    in is_idle arrived \<and> location arrived = destination (drivers w dr) \<and>
       destination arrived = None \<and>
       (status (riders w rd) = WAITING \<longrightarrow>
          (\<forall>tt. get_travel_time riding (rider_destination (riders w rd)) = Inr tt \<longrightarrow>
             event_do (Pickup t rd dr) w =
               Inr (Some [Dropoff (t + tt) rd dr],
                    w3\<lparr>drivers := (drivers w)(dr := riding),
                       riders := (riders w)(rd := (riders w rd)\<lparr>status := SATISFIED\<rparr>)\<rparr>))) \<and>
       (status (riders w rd) = CANCELLED \<longrightarrow>
          event_do (Pickup t rd dr) w = Inr (Some [DriverRequest t dr], w3))"
    by (simp add: Pickup_do_def Let_def start_ride_def end_drive_def)
  have 2: "(status (riders v r) = WAITING \<and>
       (\<exists>p. get_travel_time
               ((end_drive (drivers v d))\<lparr>destination := Some (rider_destination (riders v r))\<rparr>)
               (rider_destination (riders v r)) = Inr p \<and>
            res = Some [Dropoff (u + p) r d])) \<or>
      (status (riders v r) = CANCELLED \<and> res = Some [DriverRequest u d])"
    if h: "initial c0 \<and> new_riders c0 \<and> step\<^sup>*\<^sup>* c0 (v, pending) \<and> Pickup u r d \<in># pending \<and>
      event_do (Pickup u r d) v = Inr (res, v')"
  proof -
    from h have "initial c0" "new_riders c0" "step\<^sup>*\<^sup>* c0 (v, pending)"
      "Pickup u r d \<in># pending"
      by simp_all
    then have "status (riders v r) \<noteq> SATISFIED"
      by (rule pending_Pickup_not_satisfied)
    moreover from h have "Pickup_do u r d v = Inr (res, v')"
      by simp
    ultimately show ?thesis
      using Pickup_do_outcomes [of u r d v res v'] by blast
  qed
  from 1 2 show ?thesis
    by blast
qed

text \<open>
  Charles arrives at Lola's origin.  If she waits he drops her off three time units
  later; if she has cancelled he requests a rider at once.  And in the run in which
  Charles registers and Lola requests a driver, the pickup finds her waiting.
\<close>

theorem Pickup_do_emits_Dropoff_xor_DriverRequest_witness:
  "status (riders driving_world 0) = WAITING \<and>
   get_travel_time
     ((end_drive (drivers driving_world 0))
        \<lparr>destination := Some (rider_destination (riders driving_world 0))\<rparr>)
     (rider_destination (riders driving_world 0)) = Inr 3 \<and>
   map_sum id fst (event_do (Pickup 0 0 0) driving_world) = Inr (Some [Dropoff 3 0 0]) \<and>
   status (riders stood_up_world 0) = CANCELLED \<and>
   map_sum id fst (event_do (Pickup 4 0 0) stood_up_world) = Inr (Some [DriverRequest 4 0]) \<and>
   (\<exists>w pending res w'.
      initial (doctest_world, {#DriverRequest 0 0, RiderRequest 0 0#}) \<and>
      new_riders (doctest_world, {#DriverRequest 0 0, RiderRequest 0 0#}) \<and>
      step\<^sup>*\<^sup>* (doctest_world, {#DriverRequest 0 0, RiderRequest 0 0#}) (w, pending) \<and>
      Pickup 0 0 0 \<in># pending \<and> event_do (Pickup 0 0 0) w = Inr (res, w') \<and>
      status (riders w 0) = WAITING \<and> res = Some [Dropoff 3 0 0])"
proof -
  let ?c0 = "(doctest_world, {#DriverRequest 0 0, RiderRequest 0 0#})"
  have w: "status (riders driving_world 0) = WAITING"
    and c: "status (riders stood_up_world 0) = CANCELLED"
    by (simp_all add: driving_world_def stood_up_world_def doctest_defs)
  have tt: "get_travel_time
     ((end_drive (drivers driving_world 0))
        \<lparr>destination := Some (rider_destination (riders driving_world 0))\<rparr>)
     (rider_destination (riders driving_world 0)) = Inr 3"
    by (subst get_travel_time_exact [where l = "Location 0 0"])
       (simp_all add: driving_world_def doctest_defs end_drive_def)
  from Pickup_do_emits_Dropoff_xor_DriverRequest [of driving_world 0 0 0] w tt
  have 1: "map_sum id fst (event_do (Pickup 0 0 0) driving_world) = Inr (Some [Dropoff 3 0 0])"
    by (simp add: Let_def)
  from Pickup_do_emits_Dropoff_xor_DriverRequest [of stood_up_world 0 0 4] c
  have 2: "map_sum id fst (event_do (Pickup 4 0 0) stood_up_world) = Inr (Some [DriverRequest 4 0])"
    by (simp add: Let_def)
  have init: "initial ?c0" "new_riders ?c0"
    by (simp_all add: initial_def new_riders_def pending_for_def pending_rider_def doctest_defs)
  obtain w1 where w1: "event_do (DriverRequest 0 0) doctest_world = Inr (Some [], w1)"
    "avail_dr w1 = [0]" "wait_rd w1 = []" "drivers w1 = drivers doctest_world"
    "riders w1 = riders doctest_world"
    by (simp add: DriverRequest_do_def request_rider_def queue_defs Let_def
        doctest_world_def new_world_def)
  obtain w2 where w2: "event_do (RiderRequest 0 0) w1 =
      Inr (Some [Pickup 0 0 0, Cancellation 100 0], w2)"
    "drivers w2 0 = Charles\<lparr>is_idle := False, destination := Some (Location 0 0)\<rparr>"
    "riders w2 = riders doctest_world"
    using w1(2-5)
    by (simp add: RiderRequest_do_def request_driver_def start_drive_def queue_defs Let_def
        doctest_defs travel_time_from_origin [unfolded Location_def])
  obtain w3 where w3: "event_do (Pickup 0 0 0) w2 = Inr (Some [Dropoff 3 0 0], w3)"
    using w2(2,3)
    by (simp add: Pickup_do_def start_ride_def Let_def end_drive_def doctest_defs
        travel_time_from_origin [unfolded Location_def])
  have "step ?c0 (w1, {#DriverRequest 0 0, RiderRequest 0 0#} - {#DriverRequest 0 0#} +
      mset (scheduled (Some [])))"
    by (rule step.intros [OF _ w1(1)]) simp
  then have s1: "step ?c0 (w1, {#RiderRequest 0 0#})"
    by (simp add: scheduled_def)
  have "step (w1, {#RiderRequest 0 0#}) (w2, {#RiderRequest 0 0#} - {#RiderRequest 0 0#} +
      mset (scheduled (Some [Pickup 0 0 0, Cancellation 100 0])))"
    by (rule step.intros [OF _ w2(1)]) simp
  then have s2: "step (w1, {#RiderRequest 0 0#}) (w2, {#Pickup 0 0 0, Cancellation 100 0#})"
    by (simp add: scheduled_def)
  from s1 s2 have run: "step\<^sup>*\<^sup>* ?c0 (w2, {#Pickup 0 0 0, Cancellation 100 0#})"
    by (meson rtranclp.rtrancl_into_rtrancl rtranclp.rtrancl_refl)
  have mem: "Pickup 0 0 0 \<in># {#Pickup 0 0 0, Cancellation 100 0#}"
    by simp
  from Pickup_do_emits_Dropoff_xor_DriverRequest [where ?c0.0 = ?c0 and v = w2
      and pending = "{#Pickup 0 0 0, Cancellation 100 0#}" and u = 0 and r = 0 and d = 0
      and res = "Some [Dropoff 3 0 0]" and v' = w3]
    init run mem w3
  have "status (riders w2 0) = WAITING"
    by auto
  with init run mem w3 have 3: "\<exists>w pending res w'.
      initial ?c0 \<and> new_riders ?c0 \<and> step\<^sup>*\<^sup>* ?c0 (w, pending) \<and>
      Pickup 0 0 0 \<in># pending \<and> event_do (Pickup 0 0 0) w = Inr (res, w') \<and>
      status (riders w 0) = WAITING \<and> res = Some [Dropoff 3 0 0]"
    by blast
  from w c tt 1 2 3 show ?thesis
    by simp
qed

end
